theory Spec2Isabelle
  imports Main "HOL-Library.Word" "HOL-Library.Signed_Division" "HOL-Library.Multiset"
begin

section \<open>Data model of binpacking.go\<close>

text \<open>
  Go's \<open>int\<close> is taken as the 64-bit two's complement integer of the usual platforms:
  \<open>+\<close>, \<open>-\<close> and \<open>*\<close> wrap around, comparisons are signed (\<open><s\<close>), and \<open>/\<close>
  truncates towards zero.
\<close>

type_synonym go_int = "64 word"

definition quo :: "go_int \<Rightarrow> go_int \<Rightarrow> go_int" where
  "quo a b = word_of_int (sint a sdiv sint b)"

text \<open>The \<open>Item\<close> interface: four accessors.\<close>

record Item =
  GetWidth :: go_int
  GetHeight :: go_int
  GetDepth :: go_int
  GetWeight :: go_int

datatype RotationType = RT1 | RT2 | RT3 | RT4 | RT5 | RT6

type_synonym pos = "go_int \<times> go_int \<times> go_int"

record BoxItem =
  Item :: Item
  Pos :: pos
  RType :: RotationType

record Box =
  Name :: string
  Width :: go_int
  Height :: go_int
  Depth :: go_int
  Weight :: go_int
  Items :: "BoxItem list"

definition mkBox :: "go_int \<Rightarrow> go_int \<Rightarrow> go_int \<Rightarrow> go_int \<Rightarrow> string \<Rightarrow> Box" where
  "mkBox w h d wt n = \<lparr>Name = n, Width = w, Height = h, Depth = d, Weight = wt, Items = []\<rparr>"

definition BoxSamples :: "Box list" where
  "BoxSamples =
    [mkBox 220 160 100 110 ''Box1'',
     mkBox 260 145 145 120 ''Box2'',
     mkBox 270 185 110 140 ''Box3'',
     mkBox 310 220 140 210 ''Box4'',
     mkBox 300 210 200 250 ''Box5'',
     mkBox 300 300 130 290 ''Box6'',
     mkBox 370 270 150 300 ''Box7'',
     mkBox 300 300 250 360 ''Box8'',
     mkBox 470 280 210 400 ''Box9'',
     mkBox 430 315 200 430 ''Box10'',
     mkBox 330 330 350 500 ''Box11'',
     mkBox 465 350 370 650 ''Box12'']"

text \<open>The zero value \<open>Box{}\<close>.\<close>

definition zeroBox :: Box where
  "zeroBox = mkBox 0 0 0 0 []"

definition volume :: "Box \<Rightarrow> go_int" where
  "volume b = Width b * Height b * Depth b"

definition IsValid :: "Box \<Rightarrow> bool" where
  "IsValid b = (volume b \<noteq> 0)"

definition nonBoxItems :: "Box \<Rightarrow> Item list" where
  "nonBoxItems b = map Item (Items b)"

section \<open>Geometry\<close>

definition Dimensions :: "BoxItem \<Rightarrow> pos" where
  "Dimensions bi =
     (case RType bi of
        RT1 \<Rightarrow> (GetWidth (Item bi), GetHeight (Item bi), GetDepth (Item bi))
      | RT2 \<Rightarrow> (GetHeight (Item bi), GetWidth (Item bi), GetDepth (Item bi))
      | RT3 \<Rightarrow> (GetHeight (Item bi), GetDepth (Item bi), GetWidth (Item bi))
      | RT4 \<Rightarrow> (GetDepth (Item bi), GetHeight (Item bi), GetWidth (Item bi))
      | RT5 \<Rightarrow> (GetDepth (Item bi), GetWidth (Item bi), GetHeight (Item bi))
      | RT6 \<Rightarrow> (GetWidth (Item bi), GetDepth (Item bi), GetHeight (Item bi)))"

text \<open>Components of a \<open>[3]int\<close>.\<close>

definition ix0 :: "pos \<Rightarrow> go_int" where "ix0 p = fst p"
definition ix1 :: "pos \<Rightarrow> go_int" where "ix1 p = fst (snd p)"
definition ix2 :: "pos \<Rightarrow> go_int" where "ix2 p = snd (snd p)"

text \<open>\<open>intersect\<close>: the rectangle test on two origins \<open>o1\<close>, \<open>o2\<close> and the side lengths.\<close>

definition intersect ::
  "go_int \<times> go_int \<Rightarrow> go_int \<times> go_int \<Rightarrow> go_int \<Rightarrow> go_int \<Rightarrow> go_int \<Rightarrow> go_int \<Rightarrow> bool" where
  "intersect o1 o2 x1 y1 x2 y2 =
     (let centerx1 = fst o1 + quo x1 2;
          centery1 = snd o1 + quo y1 2;
          centerx2 = fst o2 + quo x2 2;
          centery2 = snd o2 + quo y2 2;
          x = (if centerx2 <s centerx1 then centerx1 - centerx2 else centerx2 - centerx1);
          y = (if centery2 <s centery1 then centery1 - centery2 else centery2 - centery1)
      in x <s quo (x1 + x2) 2 \<and> y <s quo (y1 + y2) 2)"

definition BoxItem_intersect :: "BoxItem \<Rightarrow> BoxItem \<Rightarrow> bool" where
  "BoxItem_intersect bi1 bi2 =
     (let d1 = Dimensions bi1; d2 = Dimensions bi2 in
        intersect (ix0 (Pos bi1), ix1 (Pos bi1)) (ix0 (Pos bi2), ix1 (Pos bi2))
                  (ix0 d1) (ix1 d1) (ix0 d2) (ix1 d2)
      \<and> intersect (ix1 (Pos bi1), ix2 (Pos bi1)) (ix1 (Pos bi2), ix2 (Pos bi2))
                  (ix1 d1) (ix2 d1) (ix1 d2) (ix2 d2)
      \<and> intersect (ix0 (Pos bi1), ix2 (Pos bi1)) (ix0 (Pos bi2), ix2 (Pos bi2))
                  (ix0 d1) (ix2 d1) (ix0 d2) (ix2 d2))"

section \<open>Placement\<close>

text \<open>
  The inner loop of \<open>place\<close> over \<open>b.Items\<close>: the value of \<open>fit\<close> after it, for the
  candidate \<open>bi\<close>.
\<close>

fun fit_loop :: "BoxItem list \<Rightarrow> BoxItem \<Rightarrow> bool" where
  "fit_loop [] bi = True"
| "fit_loop (item # items) bi =
     (if BoxItem_intersect item bi then False else fit_loop items bi)"

text \<open>The boundary test of \<open>place\<close> that makes the rotation loop \<open>continue\<close>.\<close>

definition out_of_box :: "Box \<Rightarrow> pos \<Rightarrow> pos \<Rightarrow> bool" where
  "out_of_box b p d =
     (Width b <s ix0 p + ix0 d \<or> Height b <s ix1 p + ix1 d \<or> Depth b <s ix2 p + ix2 d)"

text \<open>
  The rotation loop of \<open>place\<close>, over the rotations that are still to be tried. The
  result is the box after the call and the returned \<open>fit\<close>.
\<close>

fun place_loop :: "Box \<Rightarrow> Item \<Rightarrow> pos \<Rightarrow> RotationType list \<Rightarrow> Box \<times> bool" where
  "place_loop b item p [] = (b, False)"
| "place_loop b item p (rt # rts) =
     (let bi = \<lparr>Item = item, Pos = p, RType = rt\<rparr>; d = Dimensions bi in
      if out_of_box b p d then place_loop b item p rts
      else if fit_loop (Items b) bi then (b\<lparr>Items := Items b @ [bi]\<rparr>, True)
      else (b, False))"

definition rotations :: "RotationType list" where
  "rotations = [RT1, RT2, RT3, RT4, RT5, RT6]"

definition place :: "Box \<Rightarrow> Item \<Rightarrow> pos \<Rightarrow> Box \<times> bool" where
  "place b item p = place_loop b item p rotations"

definition origin :: pos where
  "origin = (0, 0, 0)"

section \<open>Catalog operations\<close>

fun pickBox_loop :: "Box list \<Rightarrow> Item \<Rightarrow> Box" where
  "pickBox_loop [] item = zeroBox"
| "pickBox_loop (b # bs) item =
     (case place b item origin of
        (b', fit) \<Rightarrow> if \<not> fit then pickBox_loop bs item else b'\<lparr>Items := []\<rparr>)"

definition pickBox :: "Item \<Rightarrow> Box" where
  "pickBox item = pickBox_loop BoxSamples item"

fun getBiggerBox_loop :: "go_int \<Rightarrow> Box list \<Rightarrow> Box" where
  "getBiggerBox_loop v [] = zeroBox"
| "getBiggerBox_loop v (b # bs) = (if v <s volume b then b else getBiggerBox_loop v bs)"

definition getBiggerBox :: "Box \<Rightarrow> Box" where
  "getBiggerBox box = getBiggerBox_loop (volume box) BoxSamples"

section \<open>The fill procedure \<open>pack\<close>\<close>

text \<open>
  The candidate position computed by the \<open>switch p\<close> in \<open>pack\<close> from an item that is
  already in the box. For any other \<open>p\<close> the array keeps its zero value.
\<close>

definition anchor :: "nat \<Rightarrow> BoxItem \<Rightarrow> pos" where
  "anchor p binItem =
     (if p = 0 then
        (ix0 (Pos binItem) + GetWidth (Item binItem), ix1 (Pos binItem), ix2 (Pos binItem))
      else if p = 1 then
        (ix0 (Pos binItem), ix1 (Pos binItem) + GetHeight (Item binItem), ix2 (Pos binItem))
      else if p = 2 then
        (ix0 (Pos binItem), ix1 (Pos binItem), ix2 (Pos binItem) + GetDepth (Item binItem))
      else (0, 0, 0))"

text \<open>
  The two loops under the label \<open>lookup\<close>: the inner one over \<open>currentBin.Items\<close>, the
  outer one over \<open>p = 0, 1, 2\<close>. Both stop at the first successful \<open>place\<close>; the result
  is the box after the loops and the value of \<open>fitted\<close>.
\<close>

fun lookup_items :: "Box \<Rightarrow> Item \<Rightarrow> nat \<Rightarrow> BoxItem list \<Rightarrow> Box \<times> bool" where
  "lookup_items b currenItem p [] = (b, False)"
| "lookup_items b currenItem p (binItem # binItems) =
     (case place b currenItem (anchor p binItem) of
        (b', fit) \<Rightarrow> if fit then (b', True) else lookup_items b' currenItem p binItems)"

fun lookup_axes :: "Box \<Rightarrow> Item \<Rightarrow> nat list \<Rightarrow> Box \<times> bool" where
  "lookup_axes b currenItem [] = (b, False)"
| "lookup_axes b currenItem (p # ps) =
     (case lookup_items b currenItem p (Items b) of
        (b', fitted) \<Rightarrow> if fitted then (b', True) else lookup_axes b' currenItem ps)"

definition lookup :: "Box \<Rightarrow> Item \<Rightarrow> Box \<times> bool" where
  "lookup b currenItem = lookup_axes b currenItem [0, 1, 2]"

text \<open>
  \<open>pack\<close> itself, the loop over \<open>toPack[1:]\<close> (\<open>pack_items\<close>, which carries the
  \<open>notPacked\<close> built so far) and the loop over the larger boxes \<open>nbin\<close>
  (\<open>pack_replace\<close>, which returns the current box after the loop and \<open>fitted\<close>).
  The box behind the pointer \<open>currentBin\<close> is returned with the result. \<open>None\<close> is
  the run-time panic of \<open>toPack[0]\<close> on an empty slice.
\<close>

function (domintros) pack :: "Box \<Rightarrow> Item list \<Rightarrow> bool \<Rightarrow> (Box \<times> Item list) option"
  and pack_items :: "Box \<Rightarrow> Item list \<Rightarrow> bool \<Rightarrow> Item list \<Rightarrow> (Box \<times> Item list) option"
  and pack_replace :: "Box \<Rightarrow> Item \<Rightarrow> Box \<Rightarrow> (Box \<times> bool) option"
where
  "pack currentBin [] replaceBin = None"
| "pack currentBin (item0 # rest) replaceBin =
     (case place currentBin item0 origin of
        (b, fit) \<Rightarrow>
          if \<not> fit then
            (let nbin = getBiggerBox b in
             if IsValid nbin then pack nbin (item0 # rest) replaceBin
             else Some (b, item0 # rest))
          else pack_items b rest replaceBin [])"
| "pack_items currentBin [] replaceBin notPacked = Some (currentBin, notPacked)"
| "pack_items currentBin (currenItem # rest) replaceBin notPacked =
     (case lookup currentBin currenItem of
        (b, fitted) \<Rightarrow>
          if fitted then pack_items b rest replaceBin notPacked
          else if replaceBin then
            (case pack_replace b currenItem (getBiggerBox b) of
               None \<Rightarrow> None
             | Some (b', fitted') \<Rightarrow>
                 if fitted' then pack_items b' rest replaceBin notPacked
                 else pack_items b' rest replaceBin (notPacked @ [currenItem]))
          else pack_items b rest replaceBin (notPacked @ [currenItem]))"
| "pack_replace currentBin currenItem nbin =
     (if IsValid nbin then
        (case pack nbin (nonBoxItems currentBin @ [currenItem]) False of
           None \<Rightarrow> None
         | Some (nbin', left) \<Rightarrow>
             if length left = 0 then Some (nbin', True)
             else pack_replace currentBin currenItem (getBiggerBox nbin'))
      else Some (currentBin, False))"
  by pat_completeness auto

section \<open>\<open>Pack\<close>\<close>

datatype error = ItemTooBig Item

text \<open>
  The \<open>for len(notPacked) > 0\<close> loop of \<open>Pack\<close>, with the \<open>boxes\<close> collected so far.
  It returns \<open>boxes\<close> and \<open>err\<close>; \<open>None\<close> is a run that does not return (a loop
  that never ends, or the panic of \<open>pack\<close>).
\<close>

partial_function (option) Pack_loop ::
  "Item list \<Rightarrow> Box list \<Rightarrow> (Box list \<times> error option) option" where
  "Pack_loop notPacked boxes =
     (case notPacked of
        [] \<Rightarrow> Some (boxes, None)
      | item0 # rest \<Rightarrow>
          (let currentBin = pickBox item0 in
           if \<not> IsValid currentBin then Some (boxes, Some (ItemTooBig item0))
           else
             (case pack currentBin notPacked True of
                None \<Rightarrow> None
              | Some (currentBin', notPacked') \<Rightarrow>
                  Pack_loop notPacked'
                    (if 0 < length (Items currentBin') then boxes @ [currentBin'] else boxes))))"

declare Pack_loop.simps [code]

text \<open>\<open>Items.Less\<close> on two elements: the first has the larger volume.\<close>

definition Item_volume :: "Item \<Rightarrow> go_int" where
  "Item_volume i = GetWidth i * GetHeight i * GetDepth i"

definition Less :: "Item \<Rightarrow> Item \<Rightarrow> bool" where
  "Less a b = (Item_volume b <s Item_volume a)"

text \<open>
  \<open>sort.Sort\<close> is code of the standard library, not of this repository, and its
  algorithm differs between library versions and slice lengths. \<open>Pack\<close> takes its
  effect on the slice as the parameter \<open>sort_Sort\<close>. It returns the caller's slice
  as the call leaves it (only \<open>sort.Sort\<close> writes to its backing array), \<open>boxes\<close>
  and \<open>err\<close>.
\<close>

definition Pack ::
  "(Item list \<Rightarrow> Item list) \<Rightarrow> Item list \<Rightarrow> (Item list \<times> Box list \<times> error option) option" where
  "Pack sort_Sort notPacked =
     (let sorted = sort_Sort notPacked in
      case Pack_loop sorted [] of
        None \<Rightarrow> None
      | Some (boxes, err) \<Rightarrow> Some (sorted, boxes, err))"

text \<open>
  What the library documents of \<open>sort.Sort\<close>, for the \<open>Less\<close> of \<open>Items\<close>: the slice
  is permuted into an order in which no element is \<open>Less\<close> than an earlier one. The
  order of elements of which none is \<open>Less\<close> than the other is not fixed.
\<close>

definition sorts_by_Less :: "(Item list \<Rightarrow> Item list) \<Rightarrow> bool" where
  "sorts_by_Less sort_Sort =
     (\<forall>xs. mset (sort_Sort xs) = mset xs \<and> sorted_wrt (\<lambda>a b. \<not> Less b a) (sort_Sort xs))"

text \<open>
  The library's \<open>insertionSort\<close>, which moves each element left while it is \<open>Less\<close>
  than its left neighbour; the current \<open>sort.Sort\<close> runs it on slices of at most 12
  elements. It is the sort function of the runs of \<open>Pack\<close> that are evaluated
  below. \<open>insert_left x ys\<close>: \<open>ys\<close> is the sorted prefix, last element first.
\<close>

fun insert_left :: "Item \<Rightarrow> Item list \<Rightarrow> Item list" where
  "insert_left x [] = [x]"
| "insert_left x (y # ys) = (if Less x y then y # insert_left x ys else x # y # ys)"

definition insertionSort :: "Item list \<Rightarrow> Item list" where
  "insertionSort xs = rev (foldl (\<lambda>acc x. insert_left x acc) [] xs)"

section \<open>Notions for the properties\<close>

text \<open>
  \<open>bigc b\<close> counts the catalog boxes of larger volume than \<open>b\<close>. Each
  \<open>getBiggerBox\<close> that returns a valid box lowers it, and \<open>place\<close> never changes it.
\<close>

definition bigc :: "Box \<Rightarrow> nat" where
  "bigc b = length (filter (\<lambda>c. volume b <s volume c) BoxSamples)"

text \<open>
  The measure of the three functions of \<open>pack\<close>: first \<open>replaceBin\<close>, which only
  goes from true to false; then the function; then \<open>bigc\<close> of the box, or the number
  of items that are left.
\<close>

definition pack_measure ::
  "(Box \<times> Item list \<times> bool) + (Box \<times> Item list \<times> bool \<times> Item list) + (Box \<times> Item \<times> Box)
     \<Rightarrow> nat \<times> nat \<times> nat" where
  "pack_measure a =
     (case a of
        Inl (b, xs, rb) \<Rightarrow> (if rb then 1 else 0, 2, bigc b)
      | Inr (Inl (b, xs, rb, np)) \<Rightarrow> (if rb then 1 else 0, 1, length xs)
      | Inr (Inr (cb, it, nbin)) \<Rightarrow> (1, 0, if IsValid nbin then Suc (bigc nbin) else 0))"

text \<open>
  The specification's overlap test on one axis: two intervals with origins \<open>p1\<close>,
  \<open>p2\<close> and lengths \<open>d1\<close>, \<open>d2\<close> have the centres \<open>p + d/2\<close> and the half-widths
  \<open>d/2\<close>, and overlap iff \<open>|c1 - c2| < h1 + h2\<close>. Both sides are doubled here, so
  that the comparison is exact on integers.
\<close>

definition interval_overlap :: "int \<Rightarrow> int \<Rightarrow> int \<Rightarrow> int \<Rightarrow> bool" where
  "interval_overlap p1 d1 p2 d2 = (\<bar>(2 * p1 + d1) - (2 * p2 + d2)\<bar> < d1 + d2)"

text \<open>The specification's \<open>overlaps\<close>: the exact test on all three axes.\<close>

definition overlaps :: "BoxItem \<Rightarrow> BoxItem \<Rightarrow> bool" where
  "overlaps a b =
     (interval_overlap (sint (ix0 (Pos a))) (sint (ix0 (Dimensions a)))
                       (sint (ix0 (Pos b))) (sint (ix0 (Dimensions b)))
    \<and> interval_overlap (sint (ix1 (Pos a))) (sint (ix1 (Dimensions a)))
                       (sint (ix1 (Pos b))) (sint (ix1 (Dimensions b)))
    \<and> interval_overlap (sint (ix2 (Pos a))) (sint (ix2 (Dimensions a)))
                       (sint (ix2 (Pos b))) (sint (ix2 (Dimensions b))))"

text \<open>The volume that two placed items have in common.\<close>

definition common_length :: "int \<Rightarrow> int \<Rightarrow> int \<Rightarrow> int \<Rightarrow> int" where
  "common_length p1 d1 p2 d2 = max 0 (min (p1 + d1) (p2 + d2) - max p1 p2)"

definition common_volume :: "BoxItem \<Rightarrow> BoxItem \<Rightarrow> int" where
  "common_volume a b =
     common_length (sint (ix0 (Pos a))) (sint (ix0 (Dimensions a)))
                   (sint (ix0 (Pos b))) (sint (ix0 (Dimensions b)))
   * common_length (sint (ix1 (Pos a))) (sint (ix1 (Dimensions a)))
                   (sint (ix1 (Pos b))) (sint (ix1 (Dimensions b)))
   * common_length (sint (ix2 (Pos a))) (sint (ix2 (Dimensions a)))
                   (sint (ix2 (Pos b))) (sint (ix2 (Dimensions b)))"

text \<open>The test file's \<open>goods\<close>: width, height and depth, and the constant weight 10.\<close>

definition goods :: "go_int \<Rightarrow> go_int \<Rightarrow> go_int \<Rightarrow> Item" where
  "goods w h d = \<lparr>GetWidth = w, GetHeight = h, GetDepth = d, GetWeight = 10\<rparr>"

definition placed :: "Item \<Rightarrow> pos \<Rightarrow> RotationType \<Rightarrow> BoxItem" where
  "placed i p rt = \<lparr>Item = i, Pos = p, RType = rt\<rparr>"

text \<open>
  First fit over a list of positions: \<open>place\<close> at each position in turn, up to the
  first success.
\<close>

fun try_positions :: "Box \<Rightarrow> Item \<Rightarrow> pos list \<Rightarrow> Box \<times> bool" where
  "try_positions b item [] = (b, False)"
| "try_positions b item (p # ps) =
     (case place b item p of
        (b', fit) \<Rightarrow> if fit then (b', True) else try_positions b' item ps)"

text \<open>The catalog fields of a box, without its items.\<close>

definition template :: "Box \<Rightarrow> string \<times> go_int \<times> go_int \<times> go_int \<times> go_int" where
  "template b = (Name b, Width b, Height b, Depth b, Weight b)"

text \<open>An item whose sides are non-negative and below \<open>2 ^ 61\<close>.\<close>

definition small_item :: "Item \<Rightarrow> bool" where
  "small_item i =
     (0 \<le> sint (GetWidth i) \<and> sint (GetWidth i) < 2 ^ 61
    \<and> 0 \<le> sint (GetHeight i) \<and> sint (GetHeight i) < 2 ^ 61
    \<and> 0 \<le> sint (GetDepth i) \<and> sint (GetDepth i) < 2 ^ 61)"

text \<open>The in-bounds condition on the integers that the fields stand for.\<close>

definition in_bounds :: "Box \<Rightarrow> BoxItem \<Rightarrow> bool" where
  "in_bounds b bi =
     (sint (ix0 (Pos bi)) + sint (ix0 (Dimensions bi)) \<le> sint (Width b)
    \<and> sint (ix1 (Pos bi)) + sint (ix1 (Dimensions bi)) \<le> sint (Height b)
    \<and> sint (ix2 (Pos bi)) + sint (ix2 (Dimensions bi)) \<le> sint (Depth b))"

text \<open>Positions are counted from the corner of the box: no coordinate is negative.\<close>

definition pos_from_corner :: "pos \<Rightarrow> bool" where
  "pos_from_corner p = (0 \<le> sint (ix0 p) \<and> 0 \<le> sint (ix1 p) \<and> 0 \<le> sint (ix2 p))"

text \<open>
  The invariant behind the exact in-bounds condition: the box has small sides, and
  its items are small, at non-negative positions and within the box.
\<close>

definition box_small :: "Box \<Rightarrow> bool" where
  "box_small b = (sint (Width b) < 2 ^ 61 \<and> sint (Height b) < 2 ^ 61 \<and> sint (Depth b) < 2 ^ 61)"

definition exact_inv :: "Box \<Rightarrow> bool" where
  "exact_inv b =
     (box_small b \<and>
      list_all (\<lambda>bi. small_item (Item bi) \<and> pos_from_corner (Pos bi) \<and> in_bounds b bi) (Items b))"

text \<open>A position at which a small item can be tried without overflow.\<close>

definition pos_ok :: "pos \<Rightarrow> bool" where
  "pos_ok p = (0 \<le> sint (ix0 p) \<and> sint (ix0 p) < 2 ^ 62
             \<and> 0 \<le> sint (ix1 p) \<and> sint (ix1 p) < 2 ^ 62
             \<and> 0 \<le> sint (ix2 p) \<and> sint (ix2 p) < 2 ^ 62)"

text \<open>Every item of the box passes the boundary test of \<open>place\<close>.\<close>

definition passes_boundary_test :: "Box \<Rightarrow> bool" where
  "passes_boundary_test b = list_all (\<lambda>bi. \<not> out_of_box b (Pos bi) (Dimensions bi)) (Items b)"

text \<open>No item of the box intersects a later one, by \<open>BoxItem.intersect\<close>.\<close>

definition no_intersection :: "Box \<Rightarrow> bool" where
  "no_intersection b = sorted_wrt (\<lambda>a c. \<not> BoxItem_intersect a c) (Items b)"

text \<open>
  \<open>intersect\<close> on one axis, on integers: the centres and the half sum with the
  halves rounded down.
\<close>

definition axis_test :: "int \<Rightarrow> int \<Rightarrow> int \<Rightarrow> int \<Rightarrow> bool" where
  "axis_test p1 d1 p2 d2 = (\<bar>(p1 + d1 div 2) - (p2 + d2 div 2)\<bar> < (d1 + d2) div 2)"

text \<open>Values, placed items and items for which \<open>intersect\<close> is compared with \<open>overlaps\<close>.\<close>

definition small_word :: "go_int \<Rightarrow> bool" where
  "small_word x = (0 \<le> sint x \<and> sint x < 2 ^ 61)"

definition small_placed :: "BoxItem \<Rightarrow> bool" where
  "small_placed a =
     (small_item (Item a) \<and> small_word (ix0 (Pos a)) \<and> small_word (ix1 (Pos a))
      \<and> small_word (ix2 (Pos a)))"

definition even_item :: "Item \<Rightarrow> bool" where
  "even_item i = (even (sint (GetWidth i)) \<and> even (sint (GetHeight i)) \<and> even (sint (GetDepth i)))"

section \<open>Properties of \<open>pack\<close>\<close>

subsection \<open>What \<open>place\<close> and the lookup leave unchanged\<close>

lemma place_loop_fields:
  "place_loop b item p rts = (b', fit) \<Longrightarrow>
     Name b' = Name b \<and> Width b' = Width b \<and> Height b' = Height b \<and>
     Depth b' = Depth b \<and> Weight b' = Weight b"
  by (induction rts) (auto simp: Let_def split: if_splits)

lemma place_loop_unfit: "place_loop b item p rts = (b', False) \<Longrightarrow> b' = b"
  by (induction rts) (auto simp: Let_def split: if_splits)

lemma place_unfit: "place b item p = (b', False) \<Longrightarrow> b' = b"
  unfolding place_def by (rule place_loop_unfit)

lemma lookup_items_unfit: "lookup_items b it p bis = (b', False) \<Longrightarrow> b' = b"
proof (induction bis arbitrary: b)
  case Nil
  then show ?case by simp
next
  case (Cons bi bis)
  obtain c fit where pf: "place b it (anchor p bi) = (c, fit)" by force
  with Cons.prems have nf: "\<not> fit" and rec: "lookup_items c it p bis = (b', False)"
    by (auto split: if_splits)
  from pf nf have "c = b" using place_unfit by simp
  with Cons.IH rec show ?case by simp
qed

lemma lookup_axes_unfit: "lookup_axes b it ps = (b', False) \<Longrightarrow> b' = b"
proof (induction ps arbitrary: b)
  case Nil
  then show ?case by simp
next
  case (Cons p ps)
  obtain c fitted where lf: "lookup_items b it p (Items b) = (c, fitted)" by force
  with Cons.prems have nf: "\<not> fitted" and rec: "lookup_axes c it ps = (b', False)"
    by (auto split: if_splits)
  from lf nf have "c = b" using lookup_items_unfit by simp
  with Cons.IH rec show ?case by simp
qed

subsection \<open>Invariants are carried through the lookup and through \<open>pack\<close>\<close>

text \<open>
  A property \<open>I\<close> of boxes that \<open>place\<close> keeps, at the origin and at every anchor of
  an item of the box, for the items that satisfy \<open>J\<close>, and that every larger catalog
  box has, holds of the box that \<open>pack\<close> returns.
\<close>

lemma lookup_items_inv:
  assumes pla: "\<And>b it p bi. I b \<Longrightarrow> J it \<Longrightarrow> bi \<in> set (Items b) \<Longrightarrow>
                  I (fst (place b it (anchor p bi)))"
  shows "I b \<Longrightarrow> J it \<Longrightarrow> set bis \<subseteq> set (Items b) \<Longrightarrow> I (fst (lookup_items b it p bis))"
proof (induction bis)
  case Nil
  then show ?case by simp
next
  case (Cons bi bis)
  obtain c fit where pf: "place b it (anchor p bi) = (c, fit)" by force
  have Ic: "I c" using pla[OF Cons.prems(1,2), of bi p] Cons.prems(3) pf by simp
  show ?case
  proof (cases fit)
    case True
    then show ?thesis using pf Ic by simp
  next
    case False
    then have "c = b" using pf place_unfit by simp
    then show ?thesis using Cons pf False by simp
  qed
qed

lemma lookup_axes_inv:
  assumes pla: "\<And>b it p bi. I b \<Longrightarrow> J it \<Longrightarrow> bi \<in> set (Items b) \<Longrightarrow>
                  I (fst (place b it (anchor p bi)))"
  shows "I b \<Longrightarrow> J it \<Longrightarrow> I (fst (lookup_axes b it ps))"
proof (induction ps)
  case Nil
  then show ?case by simp
next
  case (Cons p ps)
  obtain c fitted where lf: "lookup_items b it p (Items b) = (c, fitted)" by force
  have Ic: "I c"
    using lookup_items_inv[of I J b it "Items b" p, OF pla Cons.prems] lf by simp
  show ?case
  proof (cases fitted)
    case True
    then show ?thesis using lf Ic by simp
  next
    case False
    then have "c = b" using lf lookup_items_unfit by simp
    then show ?thesis using Cons lf False by simp
  qed
qed

lemma lookup_inv:
  assumes pla: "\<And>b it p bi. I b \<Longrightarrow> J it \<Longrightarrow> bi \<in> set (Items b) \<Longrightarrow>
                  I (fst (place b it (anchor p bi)))"
  shows "I b \<Longrightarrow> J it \<Longrightarrow> I (fst (lookup b it))"
  unfolding lookup_def using lookup_axes_inv[of I J b it, OF pla] by blast

lemma pack_inv_p:
  assumes pl0: "\<And>b it. I b \<Longrightarrow> J it \<Longrightarrow> I (fst (place b it origin))"
      and pla: "\<And>b it p bi. I b \<Longrightarrow> J it \<Longrightarrow> bi \<in> set (Items b) \<Longrightarrow>
                  I (fst (place b it (anchor p bi)))"
      and bg: "\<And>b. I b \<Longrightarrow> IsValid (getBiggerBox b) \<Longrightarrow> I (getBiggerBox b)"
      and nb: "\<And>b bi. I b \<Longrightarrow> bi \<in> set (Items b) \<Longrightarrow> J (Item bi)"
  shows "pack_pack_items_pack_replace_dom (Inl (b, xs, rb)) \<Longrightarrow>
           I b \<Longrightarrow> list_all J xs \<Longrightarrow> pack b xs rb = Some r \<Longrightarrow> I (fst r)"
    and "pack_pack_items_pack_replace_dom (Inr (Inl (b, xs, rb, np))) \<Longrightarrow>
           I b \<Longrightarrow> list_all J xs \<Longrightarrow> pack_items b xs rb np = Some r \<Longrightarrow> I (fst r)"
    and "pack_pack_items_pack_replace_dom (Inr (Inr (cb, it, nbin))) \<Longrightarrow>
           I cb \<Longrightarrow> J it \<Longrightarrow> (IsValid nbin \<longrightarrow> I nbin) \<Longrightarrow>
           pack_replace cb it nbin = Some r' \<Longrightarrow> I (fst r')"
proof (induction b xs rb and b xs rb np and cb it nbin arbitrary: r and r and r'
       rule: pack_pack_items_pack_replace.pinduct)
  case (1 currentBin replaceBin)
  then show ?case by (simp add: pack.psimps)
next
  case (2 currentBin item0 rest replaceBin)
  obtain b fit where pf: "place currentBin item0 origin = (b, fit)" by force
  have J0: "J item0" and Jr: "list_all J rest" using "2.prems"(2) by simp_all
  have Ib: "I b" using pl0[OF "2.prems"(1) J0] pf by simp
  show ?case
  proof (cases fit)
    case True
    then show ?thesis using 2 pf Ib Jr by (simp add: pack.psimps)
  next
    case False
    then show ?thesis using 2 pf Ib bg[OF Ib]
      by (auto simp add: pack.psimps Let_def split: if_splits)
  qed
next
  case (3 currentBin replaceBin notPacked)
  then show ?case by (auto simp add: pack_items.psimps)
next
  case (4 currentBin currenItem rest replaceBin notPacked)
  obtain b fitted where lf: "lookup currentBin currenItem = (b, fitted)" by force
  have Jc: "J currenItem" and Jr: "list_all J rest" using "4.prems"(2) by simp_all
  have Ib: "I b" using lookup_inv[of I J, OF pla "4.prems"(1) Jc] lf by simp
  show ?case
  proof (cases fitted)
    case True
    then show ?thesis using 4 lf Ib Jr by (simp add: pack_items.psimps)
  next
    case False
    note nf = this
    show ?thesis
    proof (cases replaceBin)
      case False
      then show ?thesis using 4 lf Ib nf Jr by (simp add: pack_items.psimps)
    next
      case True
      from "4.prems"(3) lf nf True "4.hyps"
      obtain b' f' where pr: "pack_replace b currenItem (getBiggerBox b) = Some (b', f')"
        by (auto simp add: pack_items.psimps split: option.splits)
      have "I (fst (b', f'))"
        using "4.IH"(2)[OF lf[symmetric] _ True Ib Jc _ pr] nf bg[OF Ib] by blast
      then have Ib': "I b'" by simp
      show ?thesis
      proof (cases f')
        case True
        then show ?thesis
          using "4.IH"(3)[OF lf[symmetric] _ \<open>replaceBin\<close> pr _ _ Ib' Jr]
                nf "4.prems"(3) lf pr "4.hyps" \<open>replaceBin\<close>
          by (simp add: pack_items.psimps)
      next
        case False
        then show ?thesis
          using "4.IH"(4)[OF lf[symmetric] _ \<open>replaceBin\<close> pr _ _ Ib' Jr]
                nf "4.prems"(3) lf pr "4.hyps" \<open>replaceBin\<close>
          by (simp add: pack_items.psimps)
      qed
    qed
  qed
next
  case (5 currentBin currenItem nbin)
  show ?case
  proof (cases "IsValid nbin")
    case False
    then show ?thesis using 5 by (auto simp add: pack_replace.psimps)
  next
    case True
    then have In: "I nbin" using "5.prems" by simp
    have Jall: "list_all J (nonBoxItems currentBin @ [currenItem])"
      using nb[OF "5.prems"(1)] "5.prems"(2) by (auto simp: nonBoxItems_def list_all_iff)
    from "5.prems"(4) True "5.hyps"
    obtain nbin' left
      where pk: "pack nbin (nonBoxItems currentBin @ [currenItem]) False = Some (nbin', left)"
      by (auto simp add: pack_replace.psimps split: option.splits)
    have "I (fst (nbin', left))" using "5.IH"(1)[OF True In Jall pk] .
    then have In': "I nbin'" by simp
    show ?thesis
    proof (cases "length left = 0")
      case True
      then show ?thesis using "5.prems"(4) \<open>IsValid nbin\<close> "5.hyps" pk In'
        by (auto simp add: pack_replace.psimps)
    next
      case False
      have "pack_replace currentBin currenItem (getBiggerBox nbin') = Some r'"
        using "5.prems"(4) \<open>IsValid nbin\<close> "5.hyps" pk False
        by (simp add: pack_replace.psimps)
      then show ?thesis
        using "5.IH"(2)[OF True pk _ False "5.prems"(1,2)] bg[OF In'] by blast
    qed
  qed
qed

subsection \<open>Termination of \<open>pack\<close>\<close>

lemma getBiggerBox_loop_cases:
  "getBiggerBox_loop v bs = zeroBox \<or>
   (getBiggerBox_loop v bs \<in> set bs \<and> v <s volume (getBiggerBox_loop v bs))"
  by (induction bs) auto

lemma zeroBox_invalid: "\<not> IsValid zeroBox"
  by (simp add: IsValid_def zeroBox_def mkBox_def volume_def)

lemma getBiggerBox_valid:
  "IsValid (getBiggerBox b) \<Longrightarrow>
     getBiggerBox b \<in> set BoxSamples \<and> volume b <s volume (getBiggerBox b)"
  using getBiggerBox_loop_cases[of "volume b" BoxSamples] zeroBox_invalid
  by (auto simp: getBiggerBox_def)

lemma length_filter_mono:
  "(\<And>x. x \<in> set xs \<Longrightarrow> P x \<Longrightarrow> Q x) \<Longrightarrow> length (filter P xs) \<le> length (filter Q xs)"
  by (induction xs) auto

lemma length_filter_less:
  assumes "\<And>x. x \<in> set xs \<Longrightarrow> P x \<Longrightarrow> Q x" and "c \<in> set xs" and "Q c" and "\<not> P c"
  shows "length (filter P xs) < length (filter Q xs)"
  using assms
proof (induction xs)
  case Nil
  then show ?case by simp
next
  case (Cons x xs)
  have le: "length (filter P xs) \<le> length (filter Q xs)"
    using Cons.prems(1) by (intro length_filter_mono) simp
  show ?case
  proof (cases "c = x")
    case True
    then show ?thesis using Cons.prems le by auto
  next
    case False
    then have "c \<in> set xs" using Cons.prems by simp
    then have "length (filter P xs) < length (filter Q xs)"
      using Cons.IH Cons.prems by simp
    then show ?thesis using Cons.prems(1)[of x] by auto
  qed
qed

lemma bigc_getBiggerBox:
  assumes "IsValid (getBiggerBox b)"
  shows "bigc (getBiggerBox b) < bigc b"
proof -
  let ?c = "getBiggerBox b"
  have c: "?c \<in> set BoxSamples" "volume b <s volume ?c"
    using getBiggerBox_valid[OF assms] by simp_all
  show ?thesis unfolding bigc_def
  proof (rule length_filter_less[where c = "?c"])
    fix x assume "volume ?c <s volume x"
    with c(2) show "volume b <s volume x" by (rule signed.less_trans)
  qed (use c in auto)
qed

lemma place_volume: "volume (fst (place b it p)) = volume b"
proof -
  obtain b' fit where pf: "place b it p = (b', fit)" by force
  then show ?thesis
    using place_loop_fields[of b it p rotations b' fit] by (simp add: place_def volume_def)
qed

lemma place_bigc: "bigc (fst (place b it p)) = bigc b"
  by (simp add: bigc_def place_volume)

lemma pack_bigc_p:
  assumes "pack_pack_items_pack_replace_dom (Inl (b, xs, rb))" and "pack b xs rb = Some (b', np)"
  shows "bigc b' \<le> bigc b"
proof -
  have "(\<lambda>c. bigc c \<le> bigc b) (fst (b', np))"
  proof (rule pack_inv_p(1)[where I = "\<lambda>c. bigc c \<le> bigc b" and J = "\<lambda>_. True",
           OF _ _ _ _ assms(1) _ _ assms(2)])
    show "\<And>c it. bigc c \<le> bigc b \<Longrightarrow> bigc (fst (place c it origin)) \<le> bigc b"
      by (simp add: place_bigc)
    show "\<And>c it p bi. bigc c \<le> bigc b \<Longrightarrow> bigc (fst (place c it (anchor p bi))) \<le> bigc b"
      by (simp add: place_bigc)
    show "\<And>c. bigc c \<le> bigc b \<Longrightarrow> IsValid (getBiggerBox c) \<Longrightarrow> bigc (getBiggerBox c) \<le> bigc b"
      using bigc_getBiggerBox by fastforce
    show "list_all (\<lambda>_. True) xs" by (simp add: list_all_iff)
  qed simp_all
  then show ?thesis by simp
qed

termination pack
proof (relation "inv_image (less_than <*lex*> less_than <*lex*> less_than) pack_measure",
       goal_cases)
  case 1
  then show ?case by (simp add: wf_lex_prod)
next
  case (2 currentBin item0 rest replaceBin x y xa)
  then have "x = currentBin"
    using place_unfit[of currentBin item0 origin x] by simp
  then show ?case using 2 bigc_getBiggerBox[of currentBin] by (simp add: pack_measure_def)
next
  case 3
  then show ?case by (simp add: pack_measure_def)
next
  case 4
  then show ?case by (simp add: pack_measure_def)
next
  case 5
  then show ?case by (simp add: pack_measure_def)
next
  case 6
  then show ?case by (simp add: pack_measure_def)
next
  case 7
  then show ?case by (simp add: pack_measure_def)
next
  case 8
  then show ?case by (simp add: pack_measure_def)
next
  case 9
  then show ?case by (simp add: pack_measure_def)
next
  case (10 currentBin currenItem nbin x2 x y)
  then have le: "bigc x \<le> bigc nbin"
    using pack_bigc_p[of nbin "nonBoxItems currentBin @ [currenItem]" False x y] by simp
  show ?case
  proof (cases "IsValid (getBiggerBox x)")
    case True
    then show ?thesis using le 10(1) bigc_getBiggerBox[of x] by (simp add: pack_measure_def)
  next
    case False
    then show ?thesis using 10(1) by (simp add: pack_measure_def)
  qed
qed

lemma pack_dom_total:
  "pack_pack_items_pack_replace_dom (Inl (b, xs, rb))"
  "pack_pack_items_pack_replace_dom (Inr (Inl (b, ys, rb, np)))"
  "pack_pack_items_pack_replace_dom (Inr (Inr (cb, it, nbin)))"
proof (induction b xs rb and b ys rb np and cb it nbin
       rule: pack_pack_items_pack_replace.induct)
  case (1 currentBin replaceBin)
  show ?case by (rule pack_pack_items_pack_replace.domintros)
next
  case (2 currentBin item0 rest replaceBin)
  show ?case
    by (rule pack_pack_items_pack_replace.domintros) (use 2 in \<open>auto dest: sym\<close>)
next
  case (3 currentBin replaceBin notPacked)
  show ?case by (rule pack_pack_items_pack_replace.domintros)
next
  case (4 currentBin currenItem rest replaceBin notPacked)
  show ?case
    by (rule pack_pack_items_pack_replace.domintros) (use 4 in \<open>auto dest: sym\<close>)
next
  case (5 currentBin currenItem nbin)
  show ?case
    by (rule pack_pack_items_pack_replace.domintros) (use 5 in \<open>auto dest: sym\<close>)
qed

lemmas pack_inv = pack_inv_p(1)[OF _ _ _ _ pack_dom_total(1)]
lemmas pack_items_inv = pack_inv_p(2)[OF _ _ _ _ pack_dom_total(2)]

section \<open>Exact geometry, for comparison with \<open>intersect\<close>\<close>

lemma interval_overlap_common_length:
  "0 < d1 \<Longrightarrow> 0 < d2 \<Longrightarrow> interval_overlap p1 d1 p2 d2 \<longleftrightarrow> 0 < common_length p1 d1 p2 d2"
  by (auto simp: interval_overlap_def common_length_def)

section \<open>Example values\<close>

text \<open>
  \<open>TestPack\<close> of the test file, with \<open>insertionSort\<close> for \<open>sort.Sort\<close>: the seven
  items go into one Box1, with the positions and rotations that the test expects.
\<close>

lemma TestPack:
  "Pack insertionSort [goods 20 100 30, goods 100 20 30, goods 20 100 30, goods 100 20 30,
         goods 100 20 30, goods 100 100 30, goods 100 100 30] =
     Some ([goods 100 100 30, goods 100 100 30, goods 20 100 30, goods 100 20 30,
            goods 20 100 30, goods 100 20 30, goods 100 20 30],
           [(BoxSamples ! 0)\<lparr>Items :=
              [placed (goods 100 100 30) (0, 0, 0) RT1,
               placed (goods 100 100 30) (100, 0, 0) RT1,
               placed (goods 20 100 30) (200, 0, 0) RT1,
               placed (goods 100 20 30) (0, 100, 0) RT1,
               placed (goods 20 100 30) (100, 100, 0) RT2,
               placed (goods 100 20 30) (200, 100, 0) RT3,
               placed (goods 100 20 30) (0, 120, 0) RT1]\<rparr>],
           None)"
  by code_simp

section \<open>The catalog\<close>

text \<open>
  C4, as stated: the catalog is ascending by volume. It is not: Box6 (index 5) has
  a smaller volume than Box5 (index 4), and Box10 (index 9) a smaller one than Box9
  (index 8).
\<close>

theorem C4_catalog_volume_descends:
  "volume (BoxSamples ! 5) <s volume (BoxSamples ! 4)
   \<and> volume (BoxSamples ! 9) <s volume (BoxSamples ! 8)"
  by (simp add: BoxSamples_def mkBox_def volume_def)

text \<open>
  C4, amended: the catalog has 12 templates, with the volumes listed, in strictly
  ascending order of their weight; without Box6 and Box10 it is ascending by volume.
\<close>

theorem C4_catalog_order:
  "length BoxSamples = 12
   \<and> map (\<lambda>b. sint (volume b)) BoxSamples =
       [3520000, 5466500, 5494500, 9548000, 12600000, 11700000,
        14985000, 22500000, 27636000, 27090000, 38115000, 60217500]
   \<and> sorted_wrt (\<lambda>a b. Weight a <s Weight b) BoxSamples
   \<and> sorted_wrt (\<lambda>a b. volume a \<le>s volume b)
        (filter (\<lambda>b. Name b \<noteq> ''Box6'' \<and> Name b \<noteq> ''Box10'') BoxSamples)"
  by code_simp

section \<open>The overlap test\<close>

text \<open>
  C2: \<open>BoxItem.intersect\<close> is true iff the two rotated boxes have a common volume.
  The halves \<open>x1/2\<close>, \<open>(x1+x2)/2\<close> of \<open>intersect\<close> are truncated: a cube of side 1 in
  the corner of a cube of side 2 is inside it, the exact test sees the overlap, and
  \<open>intersect\<close> returns false.
\<close>

theorem C2_intersect_misses_overlap:
  "\<not> BoxItem_intersect (placed (goods 2 2 2) (0, 0, 0) RT1) (placed (goods 1 1 1) (0, 0, 0) RT1)
   \<and> overlaps (placed (goods 2 2 2) (0, 0, 0) RT1) (placed (goods 1 1 1) (0, 0, 0) RT1)
   \<and> common_volume (placed (goods 2 2 2) (0, 0, 0) RT1) (placed (goods 1 1 1) (0, 0, 0) RT1) = 1"
  by code_simp

section \<open>\<open>place\<close>\<close>

lemma fit_loop_iff: "fit_loop items bi \<longleftrightarrow> \<not> (\<exists>item \<in> set items. BoxItem_intersect item bi)"
  by (induction items) auto

lemma place_loop_find:
  "place_loop b item p rts =
     (case find (\<lambda>rt. \<not> out_of_box b p (Dimensions \<lparr>Item = item, Pos = p, RType = rt\<rparr>)) rts of
        None \<Rightarrow> (b, False)
      | Some rt \<Rightarrow>
          if (\<exists>other \<in> set (Items b). BoxItem_intersect other \<lparr>Item = item, Pos = p, RType = rt\<rparr>)
          then (b, False)
          else (b\<lparr>Items := Items b @ [\<lparr>Item = item, Pos = p, RType = rt\<rparr>]\<rparr>, True))"
  by (induction rts) (simp_all add: Let_def fit_loop_iff)

text \<open>
  C8: \<open>place\<close> goes through RT1 to RT6 in this order and skips every rotation that
  fails the boundary test. The first rotation that passes it decides the call: if it
  collides with an item of the box the call fails and the box is unchanged, with no
  later rotation tried; otherwise the item is appended with this rotation. When no
  rotation passes the boundary test the call fails with the box unchanged.
\<close>

theorem C8_place_first_rotation_in_bounds_decides:
  "place b item p =
     (case find (\<lambda>rt. \<not> out_of_box b p (Dimensions \<lparr>Item = item, Pos = p, RType = rt\<rparr>))
             [RT1, RT2, RT3, RT4, RT5, RT6] of
        None \<Rightarrow> (b, False)
      | Some rt \<Rightarrow>
          if (\<exists>other \<in> set (Items b). BoxItem_intersect other \<lparr>Item = item, Pos = p, RType = rt\<rparr>)
          then (b, False)
          else (b\<lparr>Items := Items b @ [\<lparr>Item = item, Pos = p, RType = rt\<rparr>]\<rparr>, True))"
  unfolding place_def rotations_def by (rule place_loop_find)

section \<open>Termination of \<open>Pack\<close>\<close>

text \<open>
  \<open>pack\<close> returns on every non-empty slice, what it returns as not packed comes
  from its input, and when its first \<open>place\<close> succeeds at least that item is
  packed.
\<close>

lemma pack_progress:
  "xs \<noteq> [] \<Longrightarrow>
     \<exists>b' np. pack b xs rb = Some (b', np) \<and> length np \<le> length xs \<and> set np \<subseteq> set xs \<and>
       (snd (place b (hd xs) origin) \<longrightarrow> length np < length xs)"
  "\<exists>b' np'. pack_items b ys rb np = Some (b', np') \<and> length np' \<le> length np + length ys \<and>
       set np' \<subseteq> set np \<union> set ys"
  "\<exists>r. pack_replace cb it nbin = Some r"
proof (induction b xs rb and b ys rb np and cb it nbin
       rule: pack_pack_items_pack_replace.induct)
  case (1 currentBin replaceBin)
  then show ?case by simp
next
  case (2 currentBin item0 rest replaceBin)
  obtain b fit where pf: "place currentBin item0 origin = (b, fit)" by force
  show ?case
  proof (cases fit)
    case True
    from "2.IH"(2)[OF pf[symmetric]] True
    obtain b' np' where "pack_items b rest replaceBin [] = Some (b', np')"
      "length np' \<le> length rest" "set np' \<subseteq> set rest" by auto
    then show ?thesis using pf True by auto
  next
    case False
    show ?thesis
    proof (cases "IsValid (getBiggerBox b)")
      case True
      from "2.IH"(1)[OF pf[symmetric] False refl True]
      obtain b' np where "pack (getBiggerBox b) (item0 # rest) replaceBin = Some (b', np)"
        "length np \<le> length (item0 # rest)" "set np \<subseteq> set (item0 # rest)" by auto
      then show ?thesis using pf False True by (auto simp: Let_def)
    next
      case nv: False
      then show ?thesis using pf False by (auto simp: Let_def)
    qed
  qed
next
  case (3 currentBin replaceBin notPacked)
  then show ?case by simp
next
  case (4 currentBin currenItem rest replaceBin notPacked)
  obtain b fitted where lf: "lookup currentBin currenItem = (b, fitted)" by force
  show ?case
  proof (cases fitted)
    case True
    from "4.IH"(1)[OF lf[symmetric] True]
    obtain b' np' where "pack_items b rest replaceBin notPacked = Some (b', np')"
      "length np' \<le> length notPacked + length rest" "set np' \<subseteq> set notPacked \<union> set rest"
      by auto
    then show ?thesis using lf True by auto
  next
    case nf: False
    show ?thesis
    proof (cases replaceBin)
      case False
      from "4.IH"(5)[OF lf[symmetric] nf False]
      obtain b' np' where "pack_items b rest replaceBin (notPacked @ [currenItem]) = Some (b', np')"
        "length np' \<le> length (notPacked @ [currenItem]) + length rest"
        "set np' \<subseteq> set (notPacked @ [currenItem]) \<union> set rest"
        by auto
      then show ?thesis using lf nf False by auto
    next
      case True
      from "4.IH"(2)[OF lf[symmetric] nf True]
      obtain c f' where pr: "pack_replace b currenItem (getBiggerBox b) = Some (c, f')" by auto
      show ?thesis
      proof (cases f')
        case True
        from "4.IH"(3)[OF lf[symmetric] nf \<open>replaceBin\<close> pr refl True]
        obtain b' np' where "pack_items c rest replaceBin notPacked = Some (b', np')"
          "length np' \<le> length notPacked + length rest" "set np' \<subseteq> set notPacked \<union> set rest"
          by auto
        then show ?thesis using lf nf \<open>replaceBin\<close> pr True by auto
      next
        case False
        from "4.IH"(4)[OF lf[symmetric] nf \<open>replaceBin\<close> pr refl False]
        obtain b' np' where "pack_items c rest replaceBin (notPacked @ [currenItem]) = Some (b', np')"
          "length np' \<le> length (notPacked @ [currenItem]) + length rest"
          "set np' \<subseteq> set (notPacked @ [currenItem]) \<union> set rest"
          by auto
        then show ?thesis using lf nf \<open>replaceBin\<close> pr False by auto
      qed
    qed
  qed
next
  case (5 currentBin currenItem nbin)
  show ?case
  proof (cases "IsValid nbin")
    case False
    then show ?thesis by auto
  next
    case True
    from "5.IH"(1)[OF True]
    obtain nbin' left
      where pk: "pack nbin (nonBoxItems currentBin @ [currenItem]) False = Some (nbin', left)"
      by auto
    show ?thesis
    proof (cases "length left = 0")
      case True
      then show ?thesis using \<open>IsValid nbin\<close> pk by auto
    next
      case False
      from "5.IH"(2)[OF \<open>IsValid nbin\<close> pk refl False]
      show ?thesis using \<open>IsValid nbin\<close> pk False by auto
    qed
  qed
qed


text \<open>The box that \<open>pickBox\<close> selects is a catalog box that takes the item at the origin.\<close>

lemma place_loop_shape: "\<exists>its. fst (place_loop b item p rts) = b\<lparr>Items := its\<rparr>"
proof (induction rts)
  case Nil
  have "b = b\<lparr>Items := Items b\<rparr>" by simp
  then show ?case by (metis fst_conv place_loop.simps(1))
next
  case (Cons rt rts)
  have "b = b\<lparr>Items := Items b\<rparr>" by simp
  then have "\<exists>its. b = b\<lparr>Items := its\<rparr>" by blast
  with Cons show ?case by (auto simp: Let_def)
qed

lemma catalog_empty: "b \<in> set BoxSamples \<Longrightarrow> Items b = []"
  by (auto simp: BoxSamples_def mkBox_def)

lemma place_loop_emptied:
  "place_loop b item p rts = (b', True) \<Longrightarrow> snd (place_loop (b\<lparr>Items := []\<rparr>) item p rts)"
  by (induction rts) (auto simp: Let_def out_of_box_def split: if_splits)

lemma pickBox_loop_cases:
  "(\<And>b. b \<in> set bs \<Longrightarrow> Items b = []) \<Longrightarrow>
     pickBox_loop bs item = zeroBox \<or>
     (pickBox_loop bs item \<in> set bs \<and> snd (place (pickBox_loop bs item) item origin))"
proof (induction bs)
  case Nil
  then show ?case by simp
next
  case (Cons b bs)
  obtain b' fit where pf: "place b item origin = (b', fit)" by force
  show ?case
  proof (cases fit)
    case False
    then show ?thesis using Cons pf by auto
  next
    case True
    obtain its where "b' = b\<lparr>Items := its\<rparr>"
      using place_loop_shape[of b item origin rotations] pf by (auto simp: place_def)
    moreover have "Items b = []" using Cons.prems by simp
    ultimately have eq: "b'\<lparr>Items := []\<rparr> = b" by simp
    have "snd (place b item origin)" using pf True by simp
    then show ?thesis using pf True eq by simp
  qed
qed

lemma pickBox_valid:
  assumes "IsValid (pickBox item)"
  shows "pickBox item \<in> set BoxSamples" and "snd (place (pickBox item) item origin)"
  using pickBox_loop_cases[of BoxSamples item] catalog_empty assms zeroBox_invalid
  by (auto simp: pickBox_def)

lemma Pack_loop_returns: "\<exists>boxes err. Pack_loop xs acc = Some (boxes, err)"
proof (induction "length xs" arbitrary: xs acc rule: less_induct)
  case less
  show ?case
  proof (cases xs)
    case Nil
    then show ?thesis by (subst Pack_loop.simps) simp
  next
    case (Cons item0 rest)
    show ?thesis
    proof (cases "IsValid (pickBox item0)")
      case False
      then show ?thesis using Cons by (subst Pack_loop.simps) simp
    next
      case True
      have pl: "snd (place (pickBox item0) (hd xs) origin)"
        using pickBox_valid(2)[OF True] Cons by simp
      obtain b' np where pk: "pack (pickBox item0) xs True = Some (b', np)"
        and len: "length np < length xs"
        using pack_progress(1)[of xs "pickBox item0" True] pl Cons by auto
      from less[OF len]
      obtain boxes err where
        "Pack_loop np (if 0 < length (Items b') then acc @ [b'] else acc) = Some (boxes, err)"
        by blast
      then show ?thesis using Cons True pk by (subst Pack_loop.simps) simp
    qed
  qed
qed

text \<open>
  C3: \<open>Pack\<close> returns for every input, whatever \<open>sort.Sort\<close> does to the slice. An
  outer iteration whose selected box is
  not valid returns the item-too-big error. In every other iteration the leading
  item is placed in the selected box at the origin by the first \<open>place\<close> of
  \<open>pack\<close>, \<open>pack\<close> returns strictly fewer unpacked items than it was given, and
  the loop goes on with these.
\<close>

theorem C3_Pack_returns_and_progresses:
  "(\<exists>arr boxes err. Pack sort_Sort items = Some (arr, boxes, err))
   \<and> (\<not> IsValid (pickBox item0) \<longrightarrow>
        Pack_loop (item0 # rest) acc = Some (acc, Some (ItemTooBig item0)))
   \<and> (IsValid (pickBox item0) \<longrightarrow>
        snd (place (pickBox item0) item0 origin)
        \<and> (\<exists>b notPacked. pack (pickBox item0) (item0 # rest) True = Some (b, notPacked)
               \<and> length notPacked < length (item0 # rest)
               \<and> Pack_loop (item0 # rest) acc =
                   Pack_loop notPacked (if 0 < length (Items b) then acc @ [b] else acc)))"
proof -
  obtain boxes err where "Pack_loop (sort_Sort items) [] = Some (boxes, err)"
    using Pack_loop_returns by blast
  then have a: "\<exists>arr boxes err. Pack sort_Sort items = Some (arr, boxes, err)"
    by (simp add: Pack_def)
  have e: "Pack_loop (item0 # rest) acc = Some (acc, Some (ItemTooBig item0))"
    if "\<not> IsValid (pickBox item0)"
    using that by (subst Pack_loop.simps) simp
  have b: "snd (place (pickBox item0) item0 origin)
        \<and> (\<exists>b notPacked. pack (pickBox item0) (item0 # rest) True = Some (b, notPacked)
               \<and> length notPacked < length (item0 # rest)
               \<and> Pack_loop (item0 # rest) acc =
                   Pack_loop notPacked (if 0 < length (Items b) then acc @ [b] else acc))"
    if v: "IsValid (pickBox item0)"
  proof -
    have p: "snd (place (pickBox item0) item0 origin)" using pickBox_valid(2)[OF v] .
    then obtain b np where pk: "pack (pickBox item0) (item0 # rest) True = Some (b, np)"
      and len: "length np < length (item0 # rest)"
      using pack_progress(1)[of "item0 # rest" "pickBox item0" True] by auto
    have "Pack_loop (item0 # rest) acc =
            Pack_loop np (if 0 < length (Items b) then acc @ [b] else acc)"
      using v pk by (subst Pack_loop.simps) simp
    with p pk len show ?thesis by blast
  qed
  from a e b show ?thesis by blast
qed

text \<open>
  C3 at the single item 1000 x 1000 x 1000, which no box takes, and at the leading
  item 100 x 100 x 30 of the test followed by one more item: the selected box is
  valid, the item is placed, fewer items come back and the loop goes on with them.
\<close>

theorem C3_witness:
  "\<not> IsValid (pickBox (goods 1000 1000 1000))
   \<and> Pack_loop (goods 1000 1000 1000 # []) [] = Some ([], Some (ItemTooBig (goods 1000 1000 1000)))
   \<and> IsValid (pickBox (goods 100 100 30))
   \<and> snd (place (pickBox (goods 100 100 30)) (goods 100 100 30) origin)
   \<and> (\<exists>b notPacked.
        pack (pickBox (goods 100 100 30)) (goods 100 100 30 # [goods 20 100 30]) True = Some (b, notPacked)
        \<and> length notPacked < length (goods 100 100 30 # [goods 20 100 30])
        \<and> Pack_loop (goods 100 100 30 # [goods 20 100 30]) [] =
            Pack_loop notPacked (if 0 < length (Items b) then [] @ [b] else []))"
proof -
  have n: "\<not> IsValid (pickBox (goods 1000 1000 1000))" by code_simp
  have v: "IsValid (pickBox (goods 100 100 30))" by code_simp
  show ?thesis
    using n v
      C3_Pack_returns_and_progresses[of insertionSort "[]" "goods 1000 1000 1000" "[]" "[]"]
      C3_Pack_returns_and_progresses[of insertionSort "[]" "goods 100 100 30" "[goods 20 100 30]" "[]"]
    by blast
qed

section \<open>The error return of \<open>Pack\<close>\<close>

text \<open>
  C5, as stated: with the item-too-big error the returned box list is empty. It is
  not when the error arises in a later iteration: the cube of side 100 is packed
  into Box1, the rod 1000 x 1 x 1 comes back as not packed, the second iteration
  finds no box for it, and \<open>Pack\<close> returns the error together with the first box.
\<close>

theorem C5_error_after_committed_box:
  "Pack insertionSort [goods 100 100 100, goods 1000 1 1] =
     Some ([goods 100 100 100, goods 1000 1 1],
           [(BoxSamples ! 0)\<lparr>Items := [placed (goods 100 100 100) (0, 0, 0) RT1]\<rparr>],
           Some (ItemTooBig (goods 1000 1 1)))"
  by code_simp

text \<open>
  C5, amended: the bare \<open>return\<close> of the failing iteration returns the boxes
  collected by the iterations before it, unchanged, with the error for the leading
  item; so the returned list is empty when the error arises in the first iteration,
  that is when the first item of the sorted slice fits no catalog box.
\<close>

theorem C5_error_returns_boxes_so_far:
  "(\<not> IsValid (pickBox item0) \<longrightarrow>
      Pack_loop (item0 # rest) boxes = Some (boxes, Some (ItemTooBig item0)))
   \<and> (sort_Sort items = item0 # rest \<longrightarrow> \<not> IsValid (pickBox item0) \<longrightarrow>
      Pack sort_Sort items = Some (item0 # rest, [], Some (ItemTooBig item0)))"
proof -
  have a: "Pack_loop (item0 # rest) bs = Some (bs, Some (ItemTooBig item0))"
    if "\<not> IsValid (pickBox item0)" for bs
    using that by (subst Pack_loop.simps) simp
  then show ?thesis by (simp add: Pack_def)
qed

text \<open>
  C5, amended, at the single item 1000 x 1000 x 1000: no box is valid for it, and
  \<open>Pack\<close> returns the error and no box.
\<close>

theorem C5_witness:
  "\<not> IsValid (pickBox (goods 1000 1000 1000))
   \<and> insertionSort [goods 1000 1000 1000] = goods 1000 1000 1000 # []
   \<and> Pack_loop (goods 1000 1000 1000 # []) [] = Some ([], Some (ItemTooBig (goods 1000 1000 1000)))
   \<and> Pack insertionSort [goods 1000 1000 1000] =
       Some (goods 1000 1000 1000 # [], [], Some (ItemTooBig (goods 1000 1000 1000)))"
proof -
  have v: "\<not> IsValid (pickBox (goods 1000 1000 1000))" by code_simp
  have s: "insertionSort [goods 1000 1000 1000] = goods 1000 1000 1000 # []" by code_simp
  show ?thesis
    using v s C5_error_returns_boxes_so_far[of "goods 1000 1000 1000" "[]" "[]" insertionSort
          "[goods 1000 1000 1000]"]
    by blast
qed

section \<open>The anchors of the lookup\<close>

lemma try_positions_unfit: "try_positions b it ps = (b', False) \<Longrightarrow> b' = b"
proof (induction ps arbitrary: b)
  case Nil
  then show ?case by simp
next
  case (Cons p ps)
  obtain c fit where pf: "place b it p = (c, fit)" by force
  with Cons.prems have nf: "\<not> fit" and rec: "try_positions c it ps = (b', False)"
    by (auto split: if_splits)
  from pf nf have "c = b" using place_unfit by simp
  with Cons.IH rec show ?case by simp
qed

lemma try_positions_append:
  "try_positions b it (ps @ qs) =
     (case try_positions b it ps of
        (b', fit) \<Rightarrow> if fit then (b', True) else try_positions b it qs)"
proof (induction ps arbitrary: b)
  case Nil
  then show ?case by simp
next
  case (Cons p ps)
  obtain c fit where pf: "place b it p = (c, fit)" by force
  show ?case
  proof (cases fit)
    case True
    then show ?thesis using pf by simp
  next
    case False
    then have "c = b" using pf place_unfit by simp
    then show ?thesis using pf False Cons.IH by simp
  qed
qed

lemma lookup_items_try: "lookup_items b it p bis = try_positions b it (map (anchor p) bis)"
  by (induction bis arbitrary: b) (auto split: prod.splits)

lemma lookup_axes_try:
  "lookup_axes b it ps = try_positions b it (concat (map (\<lambda>p. map (anchor p) (Items b)) ps))"
proof (induction ps)
  case Nil
  then show ?case by simp
next
  case (Cons p ps)
  obtain c fitted where lf: "lookup_items b it p (Items b) = (c, fitted)" by force
  show ?case
  proof (cases fitted)
    case True
    then show ?thesis using lf by (simp add: try_positions_append lookup_items_try)
  next
    case False
    then have "c = b" using lf lookup_items_unfit by simp
    then show ?thesis using lf False Cons.IH
      by (simp add: try_positions_append lookup_items_try)
  qed
qed

text \<open>
  C6, amended: the positions that the lookup tries for an item are, in this order,
  for every item \<open>p\<close> of the box its position moved along the first axis by its
  width, then for every \<open>p\<close> its position moved along the second axis by its height,
  then for every \<open>p\<close> its position moved along the third axis by its depth. These
  are the sides of the item as \<open>GetWidth\<close>, \<open>GetHeight\<close> and \<open>GetDepth\<close> return
  them, whatever the rotation \<open>p\<close> was placed with; the other two coordinates are
  those of \<open>p\<close>.
\<close>

theorem C6_anchors_use_unrotated_sides:
  "lookup b currenItem =
     try_positions b currenItem
       (map (\<lambda>p. (ix0 (Pos p) + GetWidth (Item p), ix1 (Pos p), ix2 (Pos p))) (Items b)
        @ map (\<lambda>p. (ix0 (Pos p), ix1 (Pos p) + GetHeight (Item p), ix2 (Pos p))) (Items b)
        @ map (\<lambda>p. (ix0 (Pos p), ix1 (Pos p), ix2 (Pos p) + GetDepth (Item p))) (Items b))"
proof -
  have a0: "anchor 0 = (\<lambda>p. (ix0 (Pos p) + GetWidth (Item p), ix1 (Pos p), ix2 (Pos p)))"
    by (simp add: anchor_def fun_eq_iff)
  have a1: "anchor (Suc 0) = (\<lambda>p. (ix0 (Pos p), ix1 (Pos p) + GetHeight (Item p), ix2 (Pos p)))"
    by (simp add: anchor_def fun_eq_iff)
  have a2: "anchor 2 = (\<lambda>p. (ix0 (Pos p), ix1 (Pos p), ix2 (Pos p) + GetDepth (Item p)))"
    by (simp add: anchor_def fun_eq_iff)
  show ?thesis by (simp add: lookup_def lookup_axes_try a0 a1 a2)
qed

text \<open>
  C6, as stated: the offset is the rotated extent of the placed item. In the run
  below the first item 100 x 220 x 50 only fits Box1 with RT2, so its extent on the
  first axis is 220, while the anchor on that axis is at 100, its width.
\<close>

theorem C6_anchor_of_rotated_item:
  "Pack insertionSort [goods 100 220 50, goods 50 50 50] =
     Some ([goods 100 220 50, goods 50 50 50],
           [(BoxSamples ! 0)\<lparr>Items := [placed (goods 100 220 50) (0, 0, 0) RT2,
                                        placed (goods 50 50 50) (0, 0, 50) RT1]\<rparr>],
           None)
   \<and> ix0 (Dimensions (placed (goods 100 220 50) (0, 0, 0) RT2)) = 220
   \<and> anchor 0 (placed (goods 100 220 50) (0, 0, 0) RT2) = (100, 0, 0)"
  by code_simp

section \<open>Replacing the box during \<open>pack\<close>\<close>

lemma place_template: "template (fst (place b it p)) = template b"
proof -
  obtain b' fit where pf: "place b it p = (b', fit)" by force
  then show ?thesis
    using place_loop_fields[of b it p rotations b' fit] by (simp add: place_def template_def)
qed

lemma lookup_template: "template (fst (lookup b it)) = template b"
  using lookup_inv[of "\<lambda>c. template c = template b" "\<lambda>_. True" b it]
  by (simp add: place_template)

lemma pack_items_False_template:
  "pack_items b xs False np = Some (b', np') \<Longrightarrow> template b' = template b"
proof (induction xs arbitrary: b np)
  case Nil
  then show ?case by simp
next
  case (Cons x xs)
  obtain c fitted where lf: "lookup b x = (c, fitted)" by force
  have tc: "template c = template b" using lookup_template[of b x] lf by simp
  show ?case
  proof (cases fitted)
    case True
    then show ?thesis using Cons lf tc by simp
  next
    case False
    then show ?thesis using Cons.IH[of c "np @ [x]"] Cons.prems lf tc by simp
  qed
qed

text \<open>
  C7, amended: with \<open>replaceBin = false\<close>, as in the tentative re-pack, the loop
  over the items after the first never replaces the box: \<open>pack_items\<close> returns a box
  with the template it was given, and so does \<open>pack\<close> once its first item is placed.
\<close>

theorem C7_no_replacement_after_first_item:
  "(pack_items b xs False np = Some (b', np') \<longrightarrow> template b' = template b)
   \<and> (snd (place b item0 origin) \<longrightarrow> pack b (item0 # rest) False = Some (b', np') \<longrightarrow>
        template b' = template b)"
proof -
  have "template b' = template b"
    if pl: "snd (place b item0 origin)" and pk: "pack b (item0 # rest) False = Some (b', np')"
  proof -
    obtain c where pf: "place b item0 origin = (c, True)" using pl by (cases "place b item0 origin") auto
    then have "pack_items c rest False [] = Some (b', np')" using pk by simp
    then have "template b' = template c" by (rule pack_items_False_template)
    then show ?thesis using place_template[of b item0 origin] pf by simp
  qed
  then show ?thesis using pack_items_False_template by blast
qed

text \<open>
  C7, amended, at Box5 with the items 220 x 160 x 50 and 100 x 100 x 100: both are
  placed and the box is still Box5.
\<close>

theorem C7_witness:
  "pack_items ((BoxSamples ! 4)\<lparr>Items := [placed (goods 220 160 50) (0, 0, 0) RT1]\<rparr>)
        [goods 100 100 100] False []
     = Some ((BoxSamples ! 4)\<lparr>Items := [placed (goods 220 160 50) (0, 0, 0) RT1,
                                          placed (goods 100 100 100) (0, 0, 50) RT1]\<rparr>, [])
   \<and> snd (place (BoxSamples ! 4) (goods 220 160 50) origin)
   \<and> pack (BoxSamples ! 4) (goods 220 160 50 # [goods 100 100 100]) False
     = Some ((BoxSamples ! 4)\<lparr>Items := [placed (goods 220 160 50) (0, 0, 0) RT1,
                                          placed (goods 100 100 100) (0, 0, 50) RT1]\<rparr>, [])
   \<and> template ((BoxSamples ! 4)\<lparr>Items := [placed (goods 220 160 50) (0, 0, 0) RT1,
                                          placed (goods 100 100 100) (0, 0, 50) RT1]\<rparr>)
     = template (BoxSamples ! 4)"
proof -
  have a: "pack_items ((BoxSamples ! 4)\<lparr>Items := [placed (goods 220 160 50) (0, 0, 0) RT1]\<rparr>)
        [goods 100 100 100] False []
     = Some ((BoxSamples ! 4)\<lparr>Items := [placed (goods 220 160 50) (0, 0, 0) RT1,
                                          placed (goods 100 100 100) (0, 0, 50) RT1]\<rparr>, [])"
    by code_simp
  have b: "snd (place (BoxSamples ! 4) (goods 220 160 50) origin)" by code_simp
  have c: "pack (BoxSamples ! 4) (goods 220 160 50 # [goods 100 100 100]) False
     = Some ((BoxSamples ! 4)\<lparr>Items := [placed (goods 220 160 50) (0, 0, 0) RT1,
                                          placed (goods 100 100 100) (0, 0, 50) RT1]\<rparr>, [])"
    by code_simp
  show ?thesis
    using a b c C7_no_replacement_after_first_item[of
        "(BoxSamples ! 4)" "[]" "[]"
        "(BoxSamples ! 4)\<lparr>Items := [placed (goods 220 160 50) (0, 0, 0) RT1,
                                          placed (goods 100 100 100) (0, 0, 50) RT1]\<rparr>" "[]"
        "goods 220 160 50" "[goods 100 100 100]"]
    by blast
qed

text \<open>
  C7, as stated: the tentative re-pack never replaces the candidate box. It does,
  for the first item: \<open>Pack\<close> on 220 x 160 x 50 and 100 x 100 x 100 selects Box1,
  the second item finds no place, the first candidate is Box2, and the re-pack into
  Box2 cannot place the first item at the origin, replaces Box2 by Box3 and returns
  Box3.
\<close>

theorem C7_repack_replaces_candidate:
  "pickBox (goods 220 160 50) = BoxSamples ! 0
   \<and> place (BoxSamples ! 0) (goods 220 160 50) origin
       = ((BoxSamples ! 0)\<lparr>Items := [placed (goods 220 160 50) (0, 0, 0) RT1]\<rparr>, True)
   \<and> lookup ((BoxSamples ! 0)\<lparr>Items := [placed (goods 220 160 50) (0, 0, 0) RT1]\<rparr>) (goods 100 100 100)
       = ((BoxSamples ! 0)\<lparr>Items := [placed (goods 220 160 50) (0, 0, 0) RT1]\<rparr>, False)
   \<and> getBiggerBox ((BoxSamples ! 0)\<lparr>Items := [placed (goods 220 160 50) (0, 0, 0) RT1]\<rparr>)
       = BoxSamples ! 1
   \<and> pack (BoxSamples ! 1)
        (nonBoxItems ((BoxSamples ! 0)\<lparr>Items := [placed (goods 220 160 50) (0, 0, 0) RT1]\<rparr>)
           @ [goods 100 100 100]) False
       = Some ((BoxSamples ! 2)\<lparr>Items := [placed (goods 220 160 50) (0, 0, 0) RT1]\<rparr>,
               [goods 100 100 100])
   \<and> Name (BoxSamples ! 1) = ''Box2'' \<and> Name (BoxSamples ! 2) = ''Box3''"
  by code_simp

section \<open>The caller's slice\<close>

lemma mset_insert_left: "mset (insert_left x ys) = add_mset x (mset ys)"
  by (induction ys) auto

lemma set_insert_left: "set (insert_left x ys) = insert x (set ys)"
  by (induction ys) auto

lemma mset_foldl_insert_left:
  "mset (foldl (\<lambda>acc x. insert_left x acc) acc xs) = mset acc + mset xs"
  by (induction xs arbitrary: acc) (auto simp: mset_insert_left)

lemma mset_insertionSort: "mset (insertionSort xs) = mset xs"
  by (simp add: insertionSort_def mset_foldl_insert_left)

lemma not_Less_iff: "\<not> Less a b \<longleftrightarrow> Item_volume a \<le>s Item_volume b"
  by (simp add: Less_def signed.not_less)

lemma sorted_insert_left:
  "sorted_wrt (\<lambda>a b. \<not> Less a b) ys \<Longrightarrow> sorted_wrt (\<lambda>a b. \<not> Less a b) (insert_left x ys)"
proof (induction ys)
  case Nil
  then show ?case by simp
next
  case (Cons y ys)
  show ?case
  proof (cases "Less x y")
    case True
    then have "\<not> Less y x" by (simp add: Less_def signed.less_asym)
    then show ?thesis using Cons True by (auto simp: set_insert_left)
  next
    case False
    then have xy: "Item_volume x \<le>s Item_volume y" by (simp add: not_Less_iff)
    have "\<not> Less x z" if "z \<in> set ys" for z
    proof -
      have "Item_volume y \<le>s Item_volume z" using Cons.prems that by (simp add: not_Less_iff)
      with xy have "Item_volume x \<le>s Item_volume z" by (rule signed.order_trans)
      then show ?thesis by (simp add: not_Less_iff)
    qed
    then show ?thesis using Cons.prems False by auto
  qed
qed

lemma sorted_foldl_insert_left:
  "sorted_wrt (\<lambda>a b. \<not> Less a b) acc \<Longrightarrow>
     sorted_wrt (\<lambda>a b. \<not> Less a b) (foldl (\<lambda>acc x. insert_left x acc) acc xs)"
  by (induction xs arbitrary: acc) (auto simp: sorted_insert_left)

lemma sorted_insertionSort: "sorted_wrt (\<lambda>a b. \<not> Less b a) (insertionSort xs)"
  using sorted_foldl_insert_left[of "[]" xs] by (simp add: insertionSort_def sorted_wrt_rev)

lemma insertionSort_sorts: "sorts_by_Less insertionSort"
  by (simp add: sorts_by_Less_def mset_insertionSort sorted_insertionSort)

lemma sorts_by_Less_set: "sorts_by_Less sort_Sort \<Longrightarrow> set (sort_Sort xs) = set xs"
  by (metis sorts_by_Less_def set_mset_mset)

text \<open>
  Items of pairwise different volumes have one sorted order only: on them every sort
  function does what \<open>insertionSort\<close> does, and \<open>Pack\<close> has one result.
\<close>

lemma sorted_perm_unique:
  assumes ys: "mset ys = mset xs" and zs: "mset zs = mset xs"
      and sy: "sorted_wrt (\<lambda>a b. \<not> Less b a) ys" and sz: "sorted_wrt (\<lambda>a b. \<not> Less b a) zs"
      and d: "distinct (map Item_volume xs)"
  shows "ys = zs"
proof -
  let ?k = "\<lambda>i. sint (Item_volume i)"
  have dx: "distinct xs" and iv: "inj_on Item_volume (set xs)"
    using d by (simp_all add: distinct_map)
  have inj: "inj_on ?k (set xs)"
  proof (rule inj_onI)
    fix a b assume "a \<in> set xs" "b \<in> set xs" "sint (Item_volume a) = sint (Item_volume b)"
    then have "Item_volume a = Item_volume b" by (simp add: signed_word_eqI)
    with iv \<open>a \<in> set xs\<close> \<open>b \<in> set xs\<close> show "a = b" by (simp add: inj_on_def)
  qed
  have key: "sorted (rev (map ?k us)) \<and> distinct (rev (map ?k us)) \<and>
             set (rev (map ?k us)) = ?k ` set xs"
    if m: "mset us = mset xs" and su: "sorted_wrt (\<lambda>a b. \<not> Less b a) us" for us
  proof -
    have se: "set us = set xs" using m by (metis set_mset_mset)
    have "distinct us" using m dx by (metis mset_eq_imp_distinct_iff)
    then have du: "distinct (map ?k us)" using inj se by (simp add: distinct_map)
    have "sorted_wrt (\<lambda>a b. ?k b \<le> ?k a) us"
      using su by (simp add: Less_def word_sless_alt not_less)
    then have "sorted (rev (map ?k us))"
      by (simp add: sorted_wrt_rev sorted_wrt_map)
    then show ?thesis using du se by simp
  qed
  have "rev (map ?k ys) = rev (map ?k zs)"
    using key[OF ys sy] key[OF zs sz] by (intro sorted_distinct_set_unique) simp_all
  then have eq: "map ?k ys = map ?k zs" by simp
  have "set ys \<union> set zs = set xs" using ys zs by (metis set_mset_mset sup.idem)
  then have "inj_on ?k (set ys \<union> set zs)" using inj by simp
  then show ?thesis using eq by (simp add: inj_on_map_eq_map)
qed

lemma sort_Sort_distinct_volumes:
  assumes "sorts_by_Less sort_Sort" and "distinct (map Item_volume xs)"
  shows "sort_Sort xs = insertionSort xs"
  using assms insertionSort_sorts
  by (intro sorted_perm_unique[of _ xs]) (simp_all add: sorts_by_Less_def)

lemma Pack_distinct_volumes:
  assumes "sorts_by_Less sort_Sort" and "distinct (map Item_volume xs)"
  shows "Pack sort_Sort xs = Pack insertionSort xs"
  using sort_Sort_distinct_volumes[OF assms] by (simp add: Pack_def)

text \<open>
  The runs of \<open>Pack\<close> that are evaluated with \<open>insertionSort\<close> for the claims are
  on items of pairwise different volumes: they are the runs with every
  \<open>sort.Sort\<close> that sorts by \<open>Less\<close>.
\<close>

lemma evaluated_runs_any_sort:
  assumes "sorts_by_Less sort_Sort"
  shows "Pack sort_Sort [goods 100 100 100, goods 100 100 2, goods 100 100 1] =
           Pack insertionSort [goods 100 100 100, goods 100 100 2, goods 100 100 1]"
    and "Pack sort_Sort [goods 100 100 100, goods 1000 1 1] =
           Pack insertionSort [goods 100 100 100, goods 1000 1 1]"
    and "Pack sort_Sort [goods 100 220 50, goods 50 50 50] =
           Pack insertionSort [goods 100 220 50, goods 50 50 50]"
    and "Pack sort_Sort [goods 100 100 100, goods 9223372036854775807 2 1] =
           Pack insertionSort [goods 100 100 100, goods 9223372036854775807 2 1]"
proof -
  have "distinct (map Item_volume [goods 100 100 100, goods 100 100 2, goods 100 100 1])"
    by code_simp
  then show "Pack sort_Sort [goods 100 100 100, goods 100 100 2, goods 100 100 1] =
           Pack insertionSort [goods 100 100 100, goods 100 100 2, goods 100 100 1]"
    by (rule Pack_distinct_volumes[OF assms])
  have "distinct (map Item_volume [goods 100 100 100, goods 1000 1 1])"
    by code_simp
  then show "Pack sort_Sort [goods 100 100 100, goods 1000 1 1] =
           Pack insertionSort [goods 100 100 100, goods 1000 1 1]"
    by (rule Pack_distinct_volumes[OF assms])
  have "distinct (map Item_volume [goods 100 220 50, goods 50 50 50])"
    by code_simp
  then show "Pack sort_Sort [goods 100 220 50, goods 50 50 50] =
           Pack insertionSort [goods 100 220 50, goods 50 50 50]"
    by (rule Pack_distinct_volumes[OF assms])
  have "distinct (map Item_volume [goods 100 100 100, goods 9223372036854775807 2 1])"
    by code_simp
  then show "Pack sort_Sort [goods 100 100 100, goods 9223372036854775807 2 1] =
           Pack insertionSort [goods 100 100 100, goods 9223372036854775807 2 1]"
    by (rule Pack_distinct_volumes[OF assms])
qed

text \<open>
  C10: \<open>Pack\<close> sorts the caller's slice in place, whether it returns an error or
  not: the slice after the call is what \<open>sort.Sort\<close> left, and with a \<open>sort.Sort\<close>
  that sorts by \<open>Less\<close> this is a permutation of the input in which the volumes
  width * height * depth descend. The slice is changed in general: the items
  3 x 1 x 1 and 1 x 2 x 2, of the volumes 3 and 4, come back in the other order.
\<close>

theorem C10_Pack_sorts_the_callers_slice:
  "(\<exists>boxes err. Pack sort_Sort items = Some (sort_Sort items, boxes, err))
   \<and> (sorts_by_Less sort_Sort \<longrightarrow>
        mset (sort_Sort items) = mset items
        \<and> sorted_wrt (\<lambda>a b. GetWidth b * GetHeight b * GetDepth b
                              \<le>s GetWidth a * GetHeight a * GetDepth a) (sort_Sort items)
        \<and> (\<exists>boxes err. Pack sort_Sort [goods 3 1 1, goods 1 2 2] =
                          Some ([goods 1 2 2, goods 3 1 1], boxes, err)))"
proof -
  obtain boxes err where "Pack_loop (sort_Sort items) [] = Some (boxes, err)"
    using Pack_loop_returns by blast
  then have a: "\<exists>boxes err. Pack sort_Sort items = Some (sort_Sort items, boxes, err)"
    by (simp add: Pack_def)
  have b: "mset (sort_Sort items) = mset items
        \<and> sorted_wrt (\<lambda>a b. GetWidth b * GetHeight b * GetDepth b
                              \<le>s GetWidth a * GetHeight a * GetDepth a) (sort_Sort items)
        \<and> (\<exists>boxes err. Pack sort_Sort [goods 3 1 1, goods 1 2 2] =
                          Some ([goods 1 2 2, goods 3 1 1], boxes, err))"
    if c: "sorts_by_Less sort_Sort"
  proof -
    have m: "mset (sort_Sort items) = mset items" using c by (simp add: sorts_by_Less_def)
    have "sorted_wrt (\<lambda>a b. \<not> Less b a) (sort_Sort items)"
      using c by (simp add: sorts_by_Less_def)
    then have o: "sorted_wrt (\<lambda>a b. GetWidth b * GetHeight b * GetDepth b
                              \<le>s GetWidth a * GetHeight a * GetDepth a) (sort_Sort items)"
      by (simp add: Less_def Item_volume_def signed.not_less)
    have dv: "distinct (map Item_volume [goods 3 1 1, goods 1 2 2])" by code_simp
    have s: "insertionSort [goods 3 1 1, goods 1 2 2] = [goods 1 2 2, goods 3 1 1]" by code_simp
    have s': "sort_Sort [goods 3 1 1, goods 1 2 2] = [goods 1 2 2, goods 3 1 1]"
      using sort_Sort_distinct_volumes[OF c dv] s by simp
    obtain boxes' err' where "Pack_loop [goods 1 2 2, goods 3 1 1] [] = Some (boxes', err')"
      using Pack_loop_returns by blast
    then have "\<exists>boxes err. Pack sort_Sort [goods 3 1 1, goods 1 2 2] =
                          Some ([goods 1 2 2, goods 3 1 1], boxes, err)"
      by (simp add: Pack_def s')
    with m o show ?thesis by blast
  qed
  from a b show ?thesis by blast
qed

text \<open>
  C10 with \<open>insertionSort\<close> for \<open>sort.Sort\<close>, at the items 3 x 1 x 1 and 1 x 2 x 2:
  \<open>insertionSort\<close> sorts by \<open>Less\<close>, and the slice comes back as 1 x 2 x 2, 3 x 1 x 1.
\<close>

theorem C10_witness:
  "sorts_by_Less insertionSort
   \<and> (\<exists>boxes err. Pack insertionSort [goods 3 1 1, goods 1 2 2] =
                     Some (insertionSort [goods 3 1 1, goods 1 2 2], boxes, err))
   \<and> mset (insertionSort [goods 3 1 1, goods 1 2 2]) = mset [goods 3 1 1, goods 1 2 2]
   \<and> sorted_wrt (\<lambda>a b. GetWidth b * GetHeight b * GetDepth b
                         \<le>s GetWidth a * GetHeight a * GetDepth a)
        (insertionSort [goods 3 1 1, goods 1 2 2])
   \<and> (\<exists>boxes err. Pack insertionSort [goods 3 1 1, goods 1 2 2] =
                     Some ([goods 1 2 2, goods 3 1 1], boxes, err))"
  using insertionSort_sorts
    C10_Pack_sorts_the_callers_slice[of insertionSort "[goods 3 1 1, goods 1 2 2]"]
  by blast

section \<open>Sums without overflow\<close>

lemma sint_add_small:
  fixes a b :: go_int
  assumes "0 \<le> sint a" "sint a < 2 ^ 62" "0 \<le> sint b" "sint b < 2 ^ 62"
  shows "sint (a + b) = sint a + sint b"
proof -
  have "sint (a + b) = signed_take_bit (LENGTH(64) - 1) (sint a + sint b)"
    by (simp add: sint_word_ariths)
  also have "\<dots> = sint a + sint b"
    using assms by (intro signed_take_bit_int_eq_self) simp_all
  finally show ?thesis .
qed

lemma Dimensions_small:
  assumes "small_item it"
  shows "0 \<le> sint (ix0 (Dimensions \<lparr>Item = it, Pos = p, RType = rt\<rparr>))"
        "sint (ix0 (Dimensions \<lparr>Item = it, Pos = p, RType = rt\<rparr>)) < 2 ^ 61"
        "0 \<le> sint (ix1 (Dimensions \<lparr>Item = it, Pos = p, RType = rt\<rparr>))"
        "sint (ix1 (Dimensions \<lparr>Item = it, Pos = p, RType = rt\<rparr>)) < 2 ^ 61"
        "0 \<le> sint (ix2 (Dimensions \<lparr>Item = it, Pos = p, RType = rt\<rparr>))"
        "sint (ix2 (Dimensions \<lparr>Item = it, Pos = p, RType = rt\<rparr>)) < 2 ^ 61"
  using assms by (cases rt; simp add: small_item_def Dimensions_def ix0_def ix1_def ix2_def)+

lemma not_out_of_box_exact:
  assumes "\<not> out_of_box b p (Dimensions \<lparr>Item = it, Pos = p, RType = rt\<rparr>)"
      and "small_item it" and "pos_ok p"
  shows "in_bounds b \<lparr>Item = it, Pos = p, RType = rt\<rparr>"
proof -
  let ?d = "Dimensions \<lparr>Item = it, Pos = p, RType = rt\<rparr>"
  note ds = Dimensions_small[OF assms(2), of p rt]
  have s0: "sint (ix0 p + ix0 ?d) = sint (ix0 p) + sint (ix0 ?d)"
    using assms(3) ds by (intro sint_add_small) (simp_all add: pos_ok_def)
  have s1: "sint (ix1 p + ix1 ?d) = sint (ix1 p) + sint (ix1 ?d)"
    using assms(3) ds by (intro sint_add_small) (simp_all add: pos_ok_def)
  have s2: "sint (ix2 p + ix2 ?d) = sint (ix2 p) + sint (ix2 ?d)"
    using assms(3) ds by (intro sint_add_small) (simp_all add: pos_ok_def)
  show ?thesis
    using assms(1) s0 s1 s2
    by (simp add: out_of_box_def in_bounds_def word_sless_alt)
qed

lemma place_exact_inv:
  assumes "exact_inv b" "small_item it" "pos_ok p"
  shows "exact_inv (fst (place b it p))"
proof -
  let ?P = "\<lambda>rt. \<not> out_of_box b p (Dimensions \<lparr>Item = it, Pos = p, RType = rt\<rparr>)"
  show ?thesis
  proof (cases "find ?P rotations")
    case None
    then show ?thesis using assms(1) by (simp add: place_def place_loop_find)
  next
    case (Some rt)
    then have "?P rt" by (auto simp: find_Some_iff)
    then have ib: "in_bounds b \<lparr>Item = it, Pos = p, RType = rt\<rparr>"
      using not_out_of_box_exact assms(2,3) by blast
    have pc: "pos_from_corner p" using assms(3) by (simp add: pos_ok_def pos_from_corner_def)
    show ?thesis using Some assms(1,2) ib pc
      by (simp add: place_def place_loop_find exact_inv_def box_small_def in_bounds_def)
  qed
qed

lemma anchor_pos_ok:
  assumes "exact_inv b" "bi \<in> set (Items b)"
  shows "pos_ok (anchor p bi)"
proof -
  have bs: "box_small b" and si: "small_item (Item bi)" and pc: "pos_from_corner (Pos bi)"
    and ib: "in_bounds b bi"
    using assms by (auto simp: exact_inv_def list_all_iff)
  obtain rt where "RType bi = rt" by simp
  have d0: "0 \<le> sint (ix0 (Dimensions bi))" and d1: "0 \<le> sint (ix1 (Dimensions bi))"
    and d2: "0 \<le> sint (ix2 (Dimensions bi))"
    using si by (cases "RType bi"; simp add: small_item_def Dimensions_def ix0_def ix1_def ix2_def)+
  have p0: "0 \<le> sint (ix0 (Pos bi))" "sint (ix0 (Pos bi)) < 2 ^ 61"
    and p1: "0 \<le> sint (ix1 (Pos bi))" "sint (ix1 (Pos bi)) < 2 ^ 61"
    and p2: "0 \<le> sint (ix2 (Pos bi))" "sint (ix2 (Pos bi)) < 2 ^ 61"
    using bs pc ib d0 d1 d2 by (auto simp: box_small_def pos_from_corner_def in_bounds_def)
  have w: "0 \<le> sint (GetWidth (Item bi))" "sint (GetWidth (Item bi)) < 2 ^ 61"
    and h: "0 \<le> sint (GetHeight (Item bi))" "sint (GetHeight (Item bi)) < 2 ^ 61"
    and d: "0 \<le> sint (GetDepth (Item bi))" "sint (GetDepth (Item bi)) < 2 ^ 61"
    using si by (auto simp: small_item_def)
  have a0: "sint (ix0 (Pos bi) + GetWidth (Item bi)) = sint (ix0 (Pos bi)) + sint (GetWidth (Item bi))"
    using p0 w by (intro sint_add_small) simp_all
  have a1: "sint (ix1 (Pos bi) + GetHeight (Item bi)) = sint (ix1 (Pos bi)) + sint (GetHeight (Item bi))"
    using p1 h by (intro sint_add_small) simp_all
  have a2: "sint (ix2 (Pos bi) + GetDepth (Item bi)) = sint (ix2 (Pos bi)) + sint (GetDepth (Item bi))"
    using p2 d by (intro sint_add_small) simp_all
  show ?thesis
    using p0 p1 p2 w h d a0 a1 a2
    by (simp add: anchor_def pos_ok_def ix0_def ix1_def ix2_def)
qed

section \<open>\<open>intersect\<close> without overflow\<close>

text \<open>
  On non-negative values below \<open>2 ^ 61\<close> the sums of \<open>intersect\<close> do not
  overflow, and it is the test \<open>axis_test\<close> on each axis. Then it never reports an
  overlap that the exact test does not see, and it agrees with the exact test when
  all sides are even; only the rounding of odd sides makes it miss overlaps.
\<close>

lemma sint_quo_2:
  fixes d :: go_int
  assumes "0 \<le> sint d"
  shows "sint (quo d 2) = sint d div 2"
proof -
  have lt: "sint d < 2 ^ 63" using sint_lt[of d] by simp
  have "sint d sdiv sint (2 :: go_int) = sint d div 2"
    using assms by (simp add: signed_divide_int_def sgn_if)
  moreover have "sint (word_of_int (sint d div 2) :: go_int) = sint d div 2"
    using assms lt by (simp add: sint_sbintrunc' signed_take_bit_int_eq_self)
  ultimately show ?thesis by (simp add: quo_def)
qed

lemma sint_sub_small:
  fixes a b :: go_int
  assumes "0 \<le> sint a" "sint a < 2 ^ 62" "0 \<le> sint b" "sint b < 2 ^ 62"
  shows "sint (a - b) = sint a - sint b"
proof -
  have "sint (a - b) = signed_take_bit (LENGTH(64) - 1) (sint a - sint b)"
    by (simp add: sint_word_ariths)
  also have "\<dots> = sint a - sint b"
    using assms by (intro signed_take_bit_int_eq_self) simp_all
  finally show ?thesis .
qed

lemma axis_test_int:
  fixes p1 d1 p2 d2 :: go_int
  assumes "small_word p1" "small_word d1" "small_word p2" "small_word d2"
  shows "(let c1 = p1 + quo d1 2; c2 = p2 + quo d2 2;
              x = (if c2 <s c1 then c1 - c2 else c2 - c1)
          in x <s quo (d1 + d2) 2)
         \<longleftrightarrow> \<bar>(sint p1 + sint d1 div 2) - (sint p2 + sint d2 div 2)\<bar> < (sint d1 + sint d2) div 2"
proof -
  have b: "0 \<le> sint p1" "sint p1 < 2 ^ 61" "0 \<le> sint d1" "sint d1 < 2 ^ 61"
          "0 \<le> sint p2" "sint p2 < 2 ^ 61" "0 \<le> sint d2" "sint d2 < 2 ^ 61"
    using assms by (simp_all add: small_word_def)
  have q1: "sint (quo d1 2) = sint d1 div 2" and q2: "sint (quo d2 2) = sint d2 div 2"
    using b by (simp_all add: sint_quo_2)
  have c1: "sint (p1 + quo d1 2) = sint p1 + sint d1 div 2"
    using b q1 by (subst sint_add_small) simp_all
  have c2: "sint (p2 + quo d2 2) = sint p2 + sint d2 div 2"
    using b q2 by (subst sint_add_small) simp_all
  have s: "sint (d1 + d2) = sint d1 + sint d2"
    using b by (subst sint_add_small) simp_all
  have qs: "sint (quo (d1 + d2) 2) = (sint d1 + sint d2) div 2"
    using b s by (simp add: sint_quo_2)
  have r1: "0 \<le> sint (p1 + quo d1 2)" "sint (p1 + quo d1 2) < 2 ^ 62"
    using b c1 by simp_all
  have r2: "0 \<le> sint (p2 + quo d2 2)" "sint (p2 + quo d2 2) < 2 ^ 62"
    using b c2 by simp_all
  have m12: "sint (p1 + quo d1 2 - (p2 + quo d2 2)) = sint (p1 + quo d1 2) - sint (p2 + quo d2 2)"
    using r1 r2 by (rule sint_sub_small)
  have m21: "sint (p2 + quo d2 2 - (p1 + quo d1 2)) = sint (p2 + quo d2 2) - sint (p1 + quo d1 2)"
    using r2 r1 by (rule sint_sub_small)
  show ?thesis
  proof (cases "sint p2 + sint d2 div 2 < sint p1 + sint d1 div 2")
    case True
    then show ?thesis using c1 c2 m12 qs by (simp add: Let_def word_sless_alt)
  next
    case False
    then show ?thesis using c1 c2 m21 qs by (simp add: Let_def word_sless_alt)
  qed
qed

lemma axis_sound_int:
  fixes p1 d1 p2 d2 :: int
  assumes "\<bar>(p1 + d1 div 2) - (p2 + d2 div 2)\<bar> < (d1 + d2) div 2"
  shows "interval_overlap p1 d1 p2 d2"
  using assms unfolding interval_overlap_def by linarith

lemma axis_even_int:
  fixes p1 d1 p2 d2 :: int
  assumes "even d1" "even d2"
  shows "\<bar>(p1 + d1 div 2) - (p2 + d2 div 2)\<bar> < (d1 + d2) div 2 \<longleftrightarrow> interval_overlap p1 d1 p2 d2"
proof -
  obtain a b where "d1 = 2 * a" "d2 = 2 * b" using assms by (auto elim!: evenE)
  then show ?thesis unfolding interval_overlap_def by auto
qed


lemma intersect_int:
  assumes "small_word a1" "small_word b1" "small_word a2" "small_word b2"
      and "small_word x1" "small_word y1" "small_word x2" "small_word y2"
  shows "intersect (a1, b1) (a2, b2) x1 y1 x2 y2 \<longleftrightarrow>
           axis_test (sint a1) (sint x1) (sint a2) (sint x2)
         \<and> axis_test (sint b1) (sint y1) (sint b2) (sint y2)"
  using axis_test_int[OF assms(1,5,3,7)] axis_test_int[OF assms(2,6,4,8)]
  by (simp add: intersect_def Let_def axis_test_def)

lemma Dimensions_small_word:
  assumes "small_item (Item a)"
  shows "small_word (ix0 (Dimensions a))" "small_word (ix1 (Dimensions a))"
        "small_word (ix2 (Dimensions a))"
  using assms
  by (cases "RType a"; simp add: small_item_def small_word_def Dimensions_def ix0_def ix1_def ix2_def)+

lemma Dimensions_even:
  assumes "even_item (Item a)"
  shows "even (sint (ix0 (Dimensions a)))" "even (sint (ix1 (Dimensions a)))"
        "even (sint (ix2 (Dimensions a)))"
  using assms
  by (cases "RType a"; simp add: even_item_def Dimensions_def ix0_def ix1_def ix2_def)+

lemma BoxItem_intersect_int:
  assumes "small_placed a" "small_placed b"
  shows "BoxItem_intersect a b \<longleftrightarrow>
           axis_test (sint (ix0 (Pos a))) (sint (ix0 (Dimensions a)))
                     (sint (ix0 (Pos b))) (sint (ix0 (Dimensions b)))
         \<and> axis_test (sint (ix1 (Pos a))) (sint (ix1 (Dimensions a)))
                     (sint (ix1 (Pos b))) (sint (ix1 (Dimensions b)))
         \<and> axis_test (sint (ix2 (Pos a))) (sint (ix2 (Dimensions a)))
                     (sint (ix2 (Pos b))) (sint (ix2 (Dimensions b)))"
proof -
  note da = Dimensions_small_word[of a] and db = Dimensions_small_word[of b]
  have sa: "small_item (Item a)" "small_word (ix0 (Pos a))" "small_word (ix1 (Pos a))"
           "small_word (ix2 (Pos a))"
    and sb: "small_item (Item b)" "small_word (ix0 (Pos b))" "small_word (ix1 (Pos b))"
           "small_word (ix2 (Pos b))"
    using assms by (simp_all add: small_placed_def)
  have i01: "intersect (ix0 (Pos a), ix1 (Pos a)) (ix0 (Pos b), ix1 (Pos b))
               (ix0 (Dimensions a)) (ix1 (Dimensions a)) (ix0 (Dimensions b)) (ix1 (Dimensions b))
             \<longleftrightarrow> axis_test (sint (ix0 (Pos a))) (sint (ix0 (Dimensions a)))
                            (sint (ix0 (Pos b))) (sint (ix0 (Dimensions b)))
                \<and> axis_test (sint (ix1 (Pos a))) (sint (ix1 (Dimensions a)))
                            (sint (ix1 (Pos b))) (sint (ix1 (Dimensions b)))"
    by (rule intersect_int) (simp_all add: sa sb da db)
  have i12: "intersect (ix1 (Pos a), ix2 (Pos a)) (ix1 (Pos b), ix2 (Pos b))
               (ix1 (Dimensions a)) (ix2 (Dimensions a)) (ix1 (Dimensions b)) (ix2 (Dimensions b))
             \<longleftrightarrow> axis_test (sint (ix1 (Pos a))) (sint (ix1 (Dimensions a)))
                            (sint (ix1 (Pos b))) (sint (ix1 (Dimensions b)))
                \<and> axis_test (sint (ix2 (Pos a))) (sint (ix2 (Dimensions a)))
                            (sint (ix2 (Pos b))) (sint (ix2 (Dimensions b)))"
    by (rule intersect_int) (simp_all add: sa sb da db)
  have i02: "intersect (ix0 (Pos a), ix2 (Pos a)) (ix0 (Pos b), ix2 (Pos b))
               (ix0 (Dimensions a)) (ix2 (Dimensions a)) (ix0 (Dimensions b)) (ix2 (Dimensions b))
             \<longleftrightarrow> axis_test (sint (ix0 (Pos a))) (sint (ix0 (Dimensions a)))
                            (sint (ix0 (Pos b))) (sint (ix0 (Dimensions b)))
                \<and> axis_test (sint (ix2 (Pos a))) (sint (ix2 (Dimensions a)))
                            (sint (ix2 (Pos b))) (sint (ix2 (Dimensions b)))"
    by (rule intersect_int) (simp_all add: sa sb da db)
  show ?thesis unfolding BoxItem_intersect_def Let_def i01 i12 i02 by blast
qed

lemma BoxItem_intersect_sound:
  assumes "small_placed a" "small_placed b" "BoxItem_intersect a b"
  shows "overlaps a b"
  using assms(3) unfolding BoxItem_intersect_int[OF assms(1,2)] overlaps_def
  by (simp add: axis_sound_int[unfolded axis_test_def[symmetric]])

lemma BoxItem_intersect_even_exact:
  assumes "small_placed a" "small_placed b" "even_item (Item a)" "even_item (Item b)"
  shows "BoxItem_intersect a b \<longleftrightarrow> overlaps a b"
  unfolding BoxItem_intersect_int[OF assms(1,2)] overlaps_def
  using Dimensions_even[OF assms(3)] Dimensions_even[OF assms(4)]
  by (simp add: axis_even_int[unfolded axis_test_def[symmetric]])

section \<open>Invariants of the boxes that \<open>Pack\<close> returns\<close>

text \<open>
  A property of the box that \<open>pack\<close> returns in every outer iteration holds of all
  returned boxes; with the invariant rule of \<open>pack\<close> this reduces a property of all
  returned boxes to \<open>place\<close> and the catalog.
\<close>

lemma Pack_loop_inv:
  assumes step: "\<And>x rest b np. list_all J (x # rest) \<Longrightarrow> IsValid (pickBox x) \<Longrightarrow>
                   pack (pickBox x) (x # rest) True = Some (b, np) \<Longrightarrow> G b"
  shows "list_all J xs \<Longrightarrow> list_all G acc \<Longrightarrow> Pack_loop xs acc = Some (boxes, err) \<Longrightarrow>
           list_all G boxes"
proof (induction "length xs" arbitrary: xs acc rule: less_induct)
  case less
  show ?case
  proof (cases xs)
    case Nil
    then have "Pack_loop xs acc = Some (acc, None)" by (subst Pack_loop.simps) simp
    then show ?thesis using less.prems by simp
  next
    case (Cons item0 rest)
    show ?thesis
    proof (cases "IsValid (pickBox item0)")
      case False
      then have "Pack_loop xs acc = Some (acc, Some (ItemTooBig item0))"
        using Cons by (subst Pack_loop.simps) simp
      then show ?thesis using less.prems by simp
    next
      case True
      have pl: "snd (place (pickBox item0) (hd xs) origin)"
        using pickBox_valid(2)[OF True] Cons by simp
      obtain b' np where pk: "pack (pickBox item0) xs True = Some (b', np)"
        and len: "length np < length xs" and sub: "set np \<subseteq> set xs"
        using pack_progress(1)[of xs "pickBox item0" True] pl Cons by auto
      have Gb: "G b'" using step[of item0 rest b' np] less.prems(1) True pk Cons by simp
      have Jnp: "list_all J np" using less.prems(1) sub by (auto simp: list_all_iff)
      let ?acc = "if 0 < length (Items b') then acc @ [b'] else acc"
      have Gacc: "list_all G ?acc" using less.prems(2) Gb by simp
      have "Pack_loop xs acc = Pack_loop np ?acc"
        using Cons True pk by (subst Pack_loop.simps) simp
      then have "Pack_loop np ?acc = Some (boxes, err)" using less.prems(3) by simp
      from less.hyps[OF len Jnp Gacc this] show ?thesis .
    qed
  qed
qed

lemma Pack_boxes_inv:
  assumes pl0: "\<And>b it. I b \<Longrightarrow> J it \<Longrightarrow> I (fst (place b it origin))"
      and pla: "\<And>b it p bi. I b \<Longrightarrow> J it \<Longrightarrow> bi \<in> set (Items b) \<Longrightarrow>
                  I (fst (place b it (anchor p bi)))"
      and nb: "\<And>b bi. I b \<Longrightarrow> bi \<in> set (Items b) \<Longrightarrow> J (Item bi)"
      and cat: "\<And>b. b \<in> set BoxSamples \<Longrightarrow> I b"
      and J: "list_all J xs"
      and run: "Pack_loop xs [] = Some (boxes, err)"
  shows "list_all I boxes"
proof (rule Pack_loop_inv[where G = I and J = J, OF _ J _ run])
  fix x rest b np
  assume Jx: "list_all J (x # rest)" and v: "IsValid (pickBox x)"
    and pk: "pack (pickBox x) (x # rest) True = Some (b, np)"
  have bg: "\<And>c. I c \<Longrightarrow> IsValid (getBiggerBox c) \<Longrightarrow> I (getBiggerBox c)"
    using cat getBiggerBox_valid by blast
  have "I (pickBox x)" using cat pickBox_valid(1)[OF v] by simp
  from pack_inv[of I J, OF pl0 pla bg nb this Jx pk] show "I b" by simp
qed simp

lemma place_passes_boundary_test:
  assumes "passes_boundary_test b"
  shows "passes_boundary_test (fst (place b it p))"
proof -
  let ?P = "\<lambda>rt. \<not> out_of_box b p (Dimensions \<lparr>Item = it, Pos = p, RType = rt\<rparr>)"
  show ?thesis
  proof (cases "find ?P rotations")
    case None
    then show ?thesis using assms by (simp add: place_def place_loop_find)
  next
    case (Some rt)
    then have "?P rt" by (auto simp: find_Some_iff)
    then show ?thesis using Some assms
      by (simp add: place_def place_loop_find passes_boundary_test_def out_of_box_def)
  qed
qed

lemma place_no_intersection:
  assumes "no_intersection b"
  shows "no_intersection (fst (place b it p))"
proof -
  let ?P = "\<lambda>rt. \<not> out_of_box b p (Dimensions \<lparr>Item = it, Pos = p, RType = rt\<rparr>)"
  show ?thesis
  proof (cases "find ?P rotations")
    case None
    then show ?thesis using assms by (simp add: place_def place_loop_find)
  next
    case (Some rt)
    then show ?thesis using assms
      by (auto simp add: place_def place_loop_find no_intersection_def sorted_wrt_append)
  qed
qed

lemma catalog_small: "b \<in> set BoxSamples \<Longrightarrow> box_small b"
  by (auto simp: BoxSamples_def mkBox_def box_small_def)

lemma Pack_Some:
  "Pack sort_Sort items = Some (arr, boxes, err) \<Longrightarrow>
     arr = sort_Sort items \<and> Pack_loop (sort_Sort items) [] = Some (boxes, err)"
  by (auto simp: Pack_def Let_def split: option.splits)

text \<open>
  What \<open>place\<close> does ensure about pairs: in every returned box no two items
  intersect by the test of \<open>BoxItem.intersect\<close> itself.
\<close>

lemma Pack_no_intersecting_pair:
  assumes "Pack sort_Sort items = Some (arr, boxes, err)" and "b \<in> set boxes"
  shows "sorted_wrt (\<lambda>a c. \<not> BoxItem_intersect a c) (Items b)"
proof -
  from assms(1) have run: "Pack_loop (sort_Sort items) [] = Some (boxes, err)"
    by (simp add: Pack_Some)
  have "list_all no_intersection boxes"
  proof (rule Pack_boxes_inv[where I = no_intersection and J = "\<lambda>_. True", OF _ _ _ _ _ run])
    show "\<And>b. b \<in> set BoxSamples \<Longrightarrow> no_intersection b"
      by (simp add: no_intersection_def catalog_empty)
  qed (simp_all add: place_no_intersection list_all_iff)
  then show ?thesis using assms(2) by (simp add: list_all_iff no_intersection_def)
qed

text \<open>
  C9, amended: every placed item of every returned box passes the boundary test of
  \<open>place\<close>, whose sums are 64-bit sums; and when all sides of all items of the
  slice are non-negative and below \<open>2 ^ 61\<close> (as they are when the input items are
  so and \<open>sort.Sort\<close> permutes them), no sum overflows, and every placed item has
  non-negative coordinates and \<open>position[i] + extent[i] \<le> dimension[i]\<close> of its
  box on each axis, as integers.
\<close>

theorem C9_in_bounds_without_overflow:
  assumes "Pack sort_Sort items = Some (arr, boxes, err)"
      and "b \<in> set boxes" and "bi \<in> set (Items b)"
  shows "\<not> out_of_box b (Pos bi) (Dimensions bi)
         \<and> (list_all small_item arr \<longrightarrow> pos_from_corner (Pos bi) \<and> in_bounds b bi)
         \<and> (sorts_by_Less sort_Sort \<longrightarrow> list_all small_item items \<longrightarrow>
              pos_from_corner (Pos bi) \<and> in_bounds b bi)"
proof -
  from assms(1) have run: "Pack_loop (sort_Sort items) [] = Some (boxes, err)"
    and arr: "arr = sort_Sort items"
    by (simp_all add: Pack_Some)
  have "list_all passes_boundary_test boxes"
  proof (rule Pack_boxes_inv[where I = passes_boundary_test and J = "\<lambda>_. True", OF _ _ _ _ _ run])
    show "\<And>b. b \<in> set BoxSamples \<Longrightarrow> passes_boundary_test b"
      by (simp add: passes_boundary_test_def catalog_empty)
  qed (simp_all add: place_passes_boundary_test list_all_iff)
  then have m: "\<not> out_of_box b (Pos bi) (Dimensions bi)"
    using assms(2,3) by (simp add: list_all_iff passes_boundary_test_def)
  have e: "pos_from_corner (Pos bi) \<and> in_bounds b bi" if J: "list_all small_item (sort_Sort items)"
  proof -
    have "list_all exact_inv boxes"
    proof (rule Pack_boxes_inv[where I = exact_inv and J = small_item, OF _ _ _ _ J run])
      show "\<And>b it. exact_inv b \<Longrightarrow> small_item it \<Longrightarrow> exact_inv (fst (place b it origin))"
        by (rule place_exact_inv) (simp_all add: pos_ok_def origin_def ix0_def ix1_def ix2_def)
      show "\<And>b it p bi. exact_inv b \<Longrightarrow> small_item it \<Longrightarrow> bi \<in> set (Items b) \<Longrightarrow>
              exact_inv (fst (place b it (anchor p bi)))"
        by (rule place_exact_inv) (simp_all add: anchor_pos_ok)
      show "\<And>b bi. exact_inv b \<Longrightarrow> bi \<in> set (Items b) \<Longrightarrow> small_item (Item bi)"
        by (simp add: exact_inv_def list_all_iff)
      show "\<And>b. b \<in> set BoxSamples \<Longrightarrow> exact_inv b"
        by (simp add: exact_inv_def catalog_small catalog_empty)
    qed
    then show ?thesis using assms(2,3) by (simp add: list_all_iff exact_inv_def)
  qed
  have f: "list_all small_item (sort_Sort items)"
    if "sorts_by_Less sort_Sort" and "list_all small_item items"
    using that by (simp add: list_all_iff sorts_by_Less_set)
  from m e f arr show ?thesis by blast
qed

text \<open>
  C9, amended, with \<open>insertionSort\<close> for \<open>sort.Sort\<close>, at the items 100 x 100 x 30
  and 20 x 100 x 30: both go into Box1, and the second one, at (100, 0, 0), is within
  the box.
\<close>

theorem C9_witness:
  "sorts_by_Less insertionSort
   \<and> list_all small_item [goods 100 100 30, goods 20 100 30]
   \<and> \<not> out_of_box ((BoxSamples ! 0)\<lparr>Items := [placed (goods 100 100 30) (0, 0, 0) RT1,
                                                placed (goods 20 100 30) (100, 0, 0) RT1]\<rparr>)
                    (Pos (placed (goods 20 100 30) (100, 0, 0) RT1))
                    (Dimensions (placed (goods 20 100 30) (100, 0, 0) RT1))
   \<and> pos_from_corner (Pos (placed (goods 20 100 30) (100, 0, 0) RT1))
   \<and> in_bounds ((BoxSamples ! 0)\<lparr>Items := [placed (goods 100 100 30) (0, 0, 0) RT1,
                                              placed (goods 20 100 30) (100, 0, 0) RT1]\<rparr>)
                (placed (goods 20 100 30) (100, 0, 0) RT1)"
proof -
  let ?b = "(BoxSamples ! 0)\<lparr>Items := [placed (goods 100 100 30) (0, 0, 0) RT1,
                                        placed (goods 20 100 30) (100, 0, 0) RT1]\<rparr>"
  have run: "Pack insertionSort [goods 100 100 30, goods 20 100 30] =
               Some ([goods 100 100 30, goods 20 100 30], [?b], None)"
    by code_simp
  have sm: "list_all small_item [goods 100 100 30, goods 20 100 30]" by code_simp
  have "placed (goods 20 100 30) (100, 0, 0) RT1 \<in> set (Items ?b)" by simp
  from C9_in_bounds_without_overflow[OF run _ this] sm insertionSort_sorts
  show ?thesis by simp
qed

text \<open>
  C9, as stated: every placed item is within its box. With a side of
  \<open>2 ^ 63 - 1\<close> the product in \<open>Less\<close> and the sum in the boundary test wrap
  around: the item is sorted last, the sum \<open>100 + (2 ^ 63 - 1)\<close> is negative, the
  item passes the test at (100, 0, 0) in Box1 of width 220, and \<open>Pack\<close> succeeds.
\<close>

theorem C9_huge_item_out_of_bounds:
  "Pack insertionSort [goods 100 100 100, goods 9223372036854775807 2 1] =
     Some ([goods 100 100 100, goods 9223372036854775807 2 1],
           [(BoxSamples ! 0)\<lparr>Items := [placed (goods 100 100 100) (0, 0, 0) RT1,
                                        placed (goods 9223372036854775807 2 1) (100, 0, 0) RT1]\<rparr>],
           None)
   \<and> \<not> in_bounds ((BoxSamples ! 0)\<lparr>Items := [placed (goods 100 100 100) (0, 0, 0) RT1,
                                        placed (goods 9223372036854775807 2 1) (100, 0, 0) RT1]\<rparr>)
                   (placed (goods 9223372036854775807 2 1) (100, 0, 0) RT1)"
  by code_simp

text \<open>
  C1: no two items of a returned box have a common volume. \<open>Pack\<close> on the items
  100 x 100 x 100, 100 x 100 x 2 and 100 x 100 x 1 puts the second and the third at the
  same position (100, 0, 0) of Box1, where they share 100 x 100 x 1: on the third axis
  the truncated centres are 1 and 0 and the truncated half sum is 1, so
  \<open>intersect\<close> sees no overlap.
\<close>

theorem C1_Pack_returns_overlapping_items:
  "Pack insertionSort [goods 100 100 100, goods 100 100 2, goods 100 100 1] =
     Some ([goods 100 100 100, goods 100 100 2, goods 100 100 1],
           [(BoxSamples ! 0)\<lparr>Items := [placed (goods 100 100 100) (0, 0, 0) RT1,
                                        placed (goods 100 100 2) (100, 0, 0) RT1,
                                        placed (goods 100 100 1) (100, 0, 0) RT1]\<rparr>],
           None)
   \<and> overlaps (placed (goods 100 100 2) (100, 0, 0) RT1) (placed (goods 100 100 1) (100, 0, 0) RT1)
   \<and> common_volume (placed (goods 100 100 2) (100, 0, 0) RT1)
                    (placed (goods 100 100 1) (100, 0, 0) RT1) = 10000
   \<and> \<not> BoxItem_intersect (placed (goods 100 100 2) (100, 0, 0) RT1)
                          (placed (goods 100 100 1) (100, 0, 0) RT1)"
  by code_simp

end
